theory Spec2Isabelle
  imports Complex_Main
begin

section \<open>Conventions of the embedding\<close>

text \<open>
  The two editors (\<^verbatim>\<open>NURBSEditor\<close> in \<^verbatim>\<open>nurbseditor.cpp\<close>, \<^verbatim>\<open>HermiteEditor\<close> in
  \<^verbatim>\<open>hermiteeditor.cpp\<close>) are embedded function by function.

  \<^item> A C++ \<^verbatim>\<open>double\<close> is a \<^typ>\<open>real\<close>: arithmetic is exact, rounding is not modelled.
    IEEE division by zero gives an infinity or a NaN, which \<^typ>\<open>real\<close> does not have; an
    unguarded division therefore goes through \<open>ddiv\<close>, which reports a zero divisor.
  \<^item> A C++ \<^verbatim>\<open>int\<close> is an \<^typ>\<open>int\<close>; where the 32-bit range matters it is a hypothesis.
  \<^item> \<^verbatim>\<open>QVector::operator[]\<close> is only defined inside the vector; \<open>vec_at\<close> and \<open>vec_put\<close>
    return \<open>OutOfRange\<close> outside, so every index the code uses is a branch of the model.
  \<^item> A member function reads the editor's fields; its model takes the editor record and,
    when it mutates, returns the updated record.
\<close>

datatype error = OutOfRange | NullPointer | NonFinite

definition vec_at :: "'a list \<Rightarrow> int \<Rightarrow> error + 'a" where
  "vec_at xs i = (if 0 \<le> i \<and> i < int (length xs) then Inr (xs ! nat i) else Inl OutOfRange)"

definition vec_put :: "'a list \<Rightarrow> int \<Rightarrow> 'a \<Rightarrow> error + 'a list" where
  "vec_put xs i v = (if 0 \<le> i \<and> i < int (length xs) then Inr (xs[nat i := v]) else Inl OutOfRange)"

definition ddiv :: "real \<Rightarrow> real \<Rightarrow> error + real" where
  "ddiv a b = (if b = 0 then Inl NonFinite else Inr (a / b))"

text \<open>Qt's \<^verbatim>\<open>qFuzzyIsNull(double d)\<close> is \<^verbatim>\<open>qAbs(d) <= 0.000000000001\<close>.\<close>

definition qFuzzyIsNull :: "real \<Rightarrow> bool" where
  "qFuzzyIsNull d = (\<bar>d\<bar> \<le> 1 / 10 ^ 12)"

text \<open>\<^verbatim>\<open>qBound(min, val, max)\<close> is \<^verbatim>\<open>qMax(min, qMin(max, val))\<close>.\<close>

definition qBound :: "real \<Rightarrow> real \<Rightarrow> real \<Rightarrow> real" where
  "qBound lo v hi = max lo (min hi v)"

section \<open>Geometry primitives\<close>

datatype QPointF = QPointF (x_of: real) (y_of: real)

definition padd :: "QPointF \<Rightarrow> QPointF \<Rightarrow> QPointF" where
  "padd p q = QPointF (x_of p + x_of q) (y_of p + y_of q)"

definition psub :: "QPointF \<Rightarrow> QPointF \<Rightarrow> QPointF" where
  "psub p q = QPointF (x_of p - x_of q) (y_of p - y_of q)"

definition pscale :: "real \<Rightarrow> QPointF \<Rightarrow> QPointF" where
  "pscale c p = QPointF (c * x_of p) (c * y_of p)"

text \<open>\<^verbatim>\<open>QLineF(p, q).length()\<close>.\<close>

definition lineLength :: "QPointF \<Rightarrow> QPointF \<Rightarrow> real" where
  "lineLength p q = sqrt ((x_of q - x_of p) * (x_of q - x_of p) + (y_of q - y_of p) * (y_of q - y_of p))"

section \<open>The NURBS editor: data\<close>

record ControlPoint =
  position :: QPointF
  slopeHandles :: "QPointF list"
  slopeAngle :: real
  weight :: real

text \<open>
  \<^verbatim>\<open>controlPoints\<close> owns its elements (\<^verbatim>\<open>qDeleteAll\<close>), so the vector of pointers is the list
  of the objects. \<^verbatim>\<open>selectedPoint\<close> always is null or one of these pointers: it is the index
  of that element. \<^verbatim>\<open>activeSlopeHandle\<close> is only ever tested for null; it is the slot of the
  handle it was taken from. \<open>width\<close> and \<open>height\<close> are the widget's \<^verbatim>\<open>width()\<close> and
  \<^verbatim>\<open>height()\<close>.
\<close>

record NURBSEditor =
  isDraggingPoint :: bool
  controlPoints :: "ControlPoint list"
  selectedPoint :: "nat option"
  activeSlopeHandle :: "nat option"
  showControlPoints :: bool
  degree :: int
  sampleResolution :: int
  width :: int
  height :: int

definition HANDLE_RADIUS :: real where
  "HANDLE_RADIUS = 60"

definition HANDLE_SIZE :: real where
  "HANDLE_SIZE = 10"

definition SNAP_DISTANCE :: real where
  "SNAP_DISTANCE = 30"

section \<open>Knot vector synthesis\<close>

text \<open>The loops \<^verbatim>\<open>for (int i = lo; i <= hi; ++i) knots[i] = v;\<close> of \<^verbatim>\<open>generateKnots\<close>.\<close>

function fillKnots :: "real \<Rightarrow> int \<Rightarrow> int \<Rightarrow> real list \<Rightarrow> error + real list" where
  "fillKnots v i hi knots =
     (if i \<le> hi then
        (case vec_put knots i v of
           Inl e \<Rightarrow> Inl e
         | Inr knots' \<Rightarrow> fillKnots v (i + 1) hi knots')
      else Inr knots)"
  by pat_completeness auto
termination
  by (relation "measure (\<lambda>(v, i, hi, knots). nat (hi + 1 - i))") auto

text \<open>
  The loop \<^verbatim>\<open>for (int i = degree + 1; i < m - degree; ++i)\<close>
  \<^verbatim>\<open>knots[i] = static_cast<double>(i - degree) / (n - degree + 1);\<close>
\<close>

function interiorKnots :: "int \<Rightarrow> int \<Rightarrow> int \<Rightarrow> int \<Rightarrow> real list \<Rightarrow> error + real list" where
  "interiorKnots n deg i hi knots =
     (if i < hi then
        (case ddiv (real_of_int (i - deg)) (real_of_int (n - deg + 1)) of
           Inl e \<Rightarrow> Inl e
         | Inr q \<Rightarrow>
            (case vec_put knots i q of
               Inl e \<Rightarrow> Inl e
             | Inr knots' \<Rightarrow> interiorKnots n deg (i + 1) hi knots'))
      else Inr knots)"
  by pat_completeness auto
termination
  by (relation "measure (\<lambda>(n, deg, i, hi, knots). nat (hi - i))") auto

definition generateKnots :: "NURBSEditor \<Rightarrow> error + real list" where
  "generateKnots s =
     (let n = int (length (controlPoints s)) - 1;
          m = n + degree s + 1;
          knots = replicate (nat (m + 1)) 0
      in case fillKnots 0 0 (degree s) knots of
           Inl e \<Rightarrow> Inl e
         | Inr k1 \<Rightarrow>
            (case fillKnots 1 (m - degree s) m k1 of
               Inl e \<Rightarrow> Inl e
             | Inr k2 \<Rightarrow> interiorKnots n (degree s) (degree s + 1) (m - degree s) k2))"

text \<open>The closed form of entry \<open>j\<close> of the knot vector for \<open>n + 1\<close> points and degree \<open>deg\<close>.\<close>

definition knotEntry :: "int \<Rightarrow> int \<Rightarrow> nat \<Rightarrow> real" where
  "knotEntry n deg j =
     (if n < int j then 1
      else if int j \<le> deg then 0
      else real_of_int (int j - deg) / real_of_int (n - deg + 1))"

section \<open>Basis functions and curve evaluation\<close>

text \<open>
  \<^verbatim>\<open>basisFunction(p, i, knots, t)\<close>. The conjunction of the base case short-circuits, so
  \<^verbatim>\<open>knots[i + 1]\<close> is read only when \<^verbatim>\<open>knots[i] <= t\<close>. A recursive call is made only
  when its denominator is not fuzzy-null. The recursion ends for every \<open>p\<close>: a positive \<open>p\<close>
  reaches \<open>0\<close>, and below \<open>0\<close> the reads leave the vector after at most
  \<open>length knots + p\<close> calls.
\<close>

function basisFunction :: "int \<Rightarrow> int \<Rightarrow> real list \<Rightarrow> real \<Rightarrow> error + real" where
  "basisFunction p i knots t =
     (if p = 0 then
        (case vec_at knots i of
           Inl e \<Rightarrow> Inl e
         | Inr ki \<Rightarrow>
            if ki \<le> t then
              (case vec_at knots (i + 1) of
                 Inl e \<Rightarrow> Inl e
               | Inr ki1 \<Rightarrow> Inr (if t < ki1 then 1 else 0))
            else Inr 0)
      else
        (case vec_at knots (i + p) of
           Inl e \<Rightarrow> Inl e
         | Inr kip \<Rightarrow>
        (case vec_at knots i of
           Inl e \<Rightarrow> Inl e
         | Inr ki \<Rightarrow>
        (case (if \<not> qFuzzyIsNull (kip - ki)
               then (case basisFunction (p - 1) i knots t of
                       Inl e \<Rightarrow> Inl e
                     | Inr b \<Rightarrow> Inr ((t - ki) / (kip - ki) * b))
               else Inr 0) of
           Inl e \<Rightarrow> Inl e
         | Inr term1 \<Rightarrow>
        (case vec_at knots (i + p + 1) of
           Inl e \<Rightarrow> Inl e
         | Inr kip1 \<Rightarrow>
        (case vec_at knots (i + 1) of
           Inl e \<Rightarrow> Inl e
         | Inr ki1 \<Rightarrow>
        (case (if \<not> qFuzzyIsNull (kip1 - ki1)
               then (case basisFunction (p - 1) (i + 1) knots t of
                       Inl e \<Rightarrow> Inl e
                     | Inr b \<Rightarrow> Inr ((kip1 - t) / (kip1 - ki1) * b))
               else Inr 0) of
           Inl e \<Rightarrow> Inl e
         | Inr term2 \<Rightarrow> Inr (term1 + term2))))))))"
  by pat_completeness auto
termination
  by (relation "measure (\<lambda>(p, i, knots, t). if 0 \<le> p then nat p else nat (int (length knots) + p))")
     (auto simp: vec_at_def split: if_splits)

text \<open>
  The divisors of the divisions a call of \<^verbatim>\<open>basisFunction\<close> performs, in the order it
  performs them, for a call whose reads stay inside the vector (\<open>p\<close> and \<open>i\<close> not negative).
\<close>

fun basisDivisors :: "nat \<Rightarrow> nat \<Rightarrow> real list \<Rightarrow> real \<Rightarrow> real list" where
  "basisDivisors 0 i knots t = []"
| "basisDivisors (Suc q) i knots t =
     (let denom1 = knots ! (i + Suc q) - knots ! i;
          denom2 = knots ! (i + Suc q + 1) - knots ! (i + 1)
      in (if \<not> qFuzzyIsNull denom1 then denom1 # basisDivisors q i knots t else []) @
         (if \<not> qFuzzyIsNull denom2 then denom2 # basisDivisors q (i + 1) knots t else []))"

text \<open>
  The Cox-de Boor recursion as the specification words it, for a tolerance \<open>eps\<close>: the base
  case is the indicator of the half-open knot span, and each term of the recursive case is
  \<open>0\<close> when its denominator is within \<open>eps\<close> of zero.
\<close>

fun coxDeBoor :: "real \<Rightarrow> real list \<Rightarrow> real \<Rightarrow> nat \<Rightarrow> nat \<Rightarrow> real" where
  "coxDeBoor eps knots t 0 i = (if knots ! i \<le> t \<and> t < knots ! (i + 1) then 1 else 0)"
| "coxDeBoor eps knots t (Suc q) i =
     (if \<bar>knots ! (i + Suc q) - knots ! i\<bar> \<le> eps then 0
      else (t - knots ! i) / (knots ! (i + Suc q) - knots ! i) * coxDeBoor eps knots t q i)
     +
     (if \<bar>knots ! (i + Suc q + 1) - knots ! (i + 1)\<bar> \<le> eps then 0
      else (knots ! (i + Suc q + 1) - t) / (knots ! (i + Suc q + 1) - knots ! (i + 1))
           * coxDeBoor eps knots t q (i + 1))"

text \<open>\<^verbatim>\<open>QVector::first()\<close> and \<^verbatim>\<open>QVector::last()\<close> need a non-empty vector.\<close>

definition vec_first :: "'a list \<Rightarrow> error + 'a" where
  "vec_first xs = (case xs of [] \<Rightarrow> Inl OutOfRange | x # _ \<Rightarrow> Inr x)"

definition vec_last :: "'a list \<Rightarrow> error + 'a" where
  "vec_last xs = (if xs = [] then Inl OutOfRange else Inr (last xs))"

text \<open>
  The loop of \<^verbatim>\<open>evaluateNURBS\<close> over \<open>i = 0..n\<close>, with the accumulators
  \<open>(x, y, denominator)\<close>.
\<close>

function nurbsSum ::
  "NURBSEditor \<Rightarrow> real list \<Rightarrow> real \<Rightarrow> int \<Rightarrow> int \<Rightarrow> real \<times> real \<times> real \<Rightarrow> error + real \<times> real \<times> real"
where
  "nurbsSum s knots t i n (x, y, denominator) =
     (if i \<le> n then
        (case basisFunction (degree s) i knots t of
           Inl e \<Rightarrow> Inl e
         | Inr b \<Rightarrow>
            (case vec_at (controlPoints s) i of
               Inl e \<Rightarrow> Inl e
             | Inr cp \<Rightarrow>
                (let basis = b * weight cp
                 in nurbsSum s knots t (i + 1) n
                      (x + x_of (position cp) * basis,
                       y + y_of (position cp) * basis,
                       denominator + basis))))
      else Inr (x, y, denominator))"
  by pat_completeness auto
termination
  by (relation "measure (\<lambda>(s, knots, t, i, n, acc). nat (n + 1 - i))") auto

definition evaluateNURBS :: "NURBSEditor \<Rightarrow> real \<Rightarrow> error + QPointF" where
  "evaluateNURBS s t =
     (if int (length (controlPoints s)) < 2 then Inr (QPointF 0 0)
      else if t \<le> 0 then
        (case vec_first (controlPoints s) of Inl e \<Rightarrow> Inl e | Inr cp \<Rightarrow> Inr (position cp))
      else if t \<ge> 1 then
        (case vec_last (controlPoints s) of Inl e \<Rightarrow> Inl e | Inr cp \<Rightarrow> Inr (position cp))
      else
        (let t' = qBound 0 t 1 in
         case generateKnots s of
           Inl e \<Rightarrow> Inl e
         | Inr knots \<Rightarrow>
            (case nurbsSum s knots t' 0 (int (length (controlPoints s)) - 1) (0, 0, 0) of
               Inl e \<Rightarrow> Inl e
             | Inr (x, y, denominator) \<Rightarrow>
                Inr (if denominator \<noteq> 0 then QPointF (x / denominator) (y / denominator)
                     else QPointF 0 0))))"

section \<open>Constructors and the scenario of the specification\<close>

text \<open>
  The constructor \<^verbatim>\<open>ControlPoint(p)\<close>, \<^verbatim>\<open>initSlopeHandles\<close>, and the editor as its member
  initialisers leave it (\<^verbatim>\<open>main\<close> resizes the widget to \<open>1280 \<times> 800\<close>).
\<close>

definition ControlPoint_new :: "QPointF \<Rightarrow> ControlPoint" where
  "ControlPoint_new p = \<lparr>position = p, slopeHandles = [], slopeAngle = 0, weight = 1\<rparr>"

definition initSlopeHandles :: "ControlPoint \<Rightarrow> ControlPoint" where
  "initSlopeHandles cp =
     cp\<lparr>slopeHandles :=
          [QPointF (x_of (position cp) + HANDLE_RADIUS) (y_of (position cp)),
           QPointF (x_of (position cp) - HANDLE_RADIUS) (y_of (position cp))],
        weight := 1\<rparr>"

definition NURBSEditor_new :: NURBSEditor where
  "NURBSEditor_new =
     \<lparr>isDraggingPoint = False, controlPoints = [], selectedPoint = None,
      activeSlopeHandle = None, showControlPoints = True, degree = 3,
      sampleResolution = 100, width = 1280, height = 800\<rparr>"

text \<open>
  The scenario of the specification: four control points at \<open>(0,0)\<close>, \<open>(50,100)\<close>,
  \<open>(150,100)\<close>, \<open>(200,0)\<close>, as \<^verbatim>\<open>createNewControlPoint\<close> makes them (weight \<open>1\<close>), degree \<open>3\<close>.
\<close>

definition scenarioNurbs :: NURBSEditor where
  "scenarioNurbs =
     NURBSEditor_new
       \<lparr>controlPoints :=
          map (\<lambda>p. initSlopeHandles (ControlPoint_new p))
            [QPointF 0 0, QPointF 50 100, QPointF 150 100, QPointF 200 0]\<rparr>"

text \<open>
  Two control points whose weights are \<open>0\<close>, degree \<open>1\<close>: a record on which the weighted
  basis sum of \<^verbatim>\<open>evaluateNURBS\<close> is \<open>0\<close>.
\<close>

definition zeroWeightNurbs :: NURBSEditor where
  "zeroWeightNurbs =
     NURBSEditor_new
       \<lparr>controlPoints :=
          [(initSlopeHandles (ControlPoint_new (QPointF 0 0)))\<lparr>weight := 0\<rparr>,
           (initSlopeHandles (ControlPoint_new (QPointF 10 0)))\<lparr>weight := 0\<rparr>],
        degree := 1\<rparr>"


section \<open>The Hermite editor\<close>

text \<open>
  \<^verbatim>\<open>HermiteEditor::InterpPoint\<close>; the fields of the editor that \<^verbatim>\<open>drawHermiteCurve\<close> reads
  are \<^verbatim>\<open>points\<close> and \<^verbatim>\<open>sampleResolution\<close>. (The suffix \<open>H\<close> keeps the names apart from the
  fields of the NURBS editor.)
\<close>

record InterpPoint =
  positionH :: QPointF
  tangent :: QPointF
  hasTangent :: bool

record HermiteEditor =
  points :: "InterpPoint list"
  sampleResolutionH :: int

text \<open>What \<^verbatim>\<open>drawHermiteCurve\<close> appends to its \<^verbatim>\<open>QPainterPath\<close>.\<close>

datatype PathElement = MoveTo QPointF | LineTo QPointF

fun pointOf :: "PathElement \<Rightarrow> QPointF" where
  "pointOf (MoveTo p) = p"
| "pointOf (LineTo p) = p"

text \<open>\<^verbatim>\<open>0.5 * (points[a]->position - points[b]->position)\<close>.\<close>

definition halfDifference :: "InterpPoint list \<Rightarrow> int \<Rightarrow> int \<Rightarrow> error + QPointF" where
  "halfDifference pts a b =
     (case vec_at pts a of
        Inl e \<Rightarrow> Inl e
      | Inr pa \<Rightarrow>
         (case vec_at pts b of
            Inl e \<Rightarrow> Inl e
          | Inr pb \<Rightarrow> Inr (pscale (1 / 2) (psub (positionH pa) (positionH pb)))))"

text \<open>The first loop of \<^verbatim>\<open>drawHermiteCurve\<close>: it fills \<^verbatim>\<open>autoTangents\<close>.\<close>

function autoTangentsLoop :: "InterpPoint list \<Rightarrow> int \<Rightarrow> QPointF list \<Rightarrow> error + QPointF list" where
  "autoTangentsLoop pts i autoTangents =
     (if i < int (length pts) then
        (case (if i = 0 then halfDifference pts (i + 1) i
               else if i = int (length pts) - 1 then halfDifference pts i (i - 1)
               else halfDifference pts (i + 1) (i - 1)) of
           Inl e \<Rightarrow> Inl e
         | Inr v \<Rightarrow>
            (case vec_put autoTangents i v of
               Inl e \<Rightarrow> Inl e
             | Inr autoTangents' \<Rightarrow> autoTangentsLoop pts (i + 1) autoTangents'))
      else Inr autoTangents)"
  by pat_completeness auto
termination
  by (relation "measure (\<lambda>(pts, i, autoTangents). nat (int (length pts) - i))") auto

text \<open>The inner loop over \<open>j = 0..sampleResolution\<close> for one segment.\<close>

function sampleLoop ::
  "int \<Rightarrow> QPointF \<Rightarrow> QPointF \<Rightarrow> QPointF \<Rightarrow> QPointF \<Rightarrow> int \<Rightarrow> PathElement list \<Rightarrow> error + PathElement list"
where
  "sampleLoop res p0 t0 p1 t1 j path =
     (if j \<le> res then
        (case ddiv (real_of_int j) (real_of_int res) of
           Inl e \<Rightarrow> Inl e
         | Inr t \<Rightarrow>
            (let h00 = 2 * t * t * t - 3 * t * t + 1;
                 h10 = t * t * t - 2 * t * t + t;
                 h01 = - 2 * t * t * t + 3 * t * t;
                 h11 = t * t * t - t * t;
                 pt = padd (padd (padd (pscale h00 p0) (pscale h10 t0)) (pscale h01 p1)) (pscale h11 t1)
             in sampleLoop res p0 t0 p1 t1 (j + 1)
                  (path @ [if j = 0 then MoveTo pt else LineTo pt])))
      else Inr path)"
  by pat_completeness auto
termination
  by (relation "measure (\<lambda>(res, p0, t0, p1, t1, j, path). nat (res + 1 - j))") auto

text \<open>The outer loop over the segments \<open>i = 0..points.size() - 2\<close>.\<close>

function segmentLoop ::
  "HermiteEditor \<Rightarrow> QPointF list \<Rightarrow> int \<Rightarrow> PathElement list \<Rightarrow> error + PathElement list"
where
  "segmentLoop h autoTangents i path =
     (if i < int (length (points h)) - 1 then
        (case vec_at (points h) i of
           Inl e \<Rightarrow> Inl e
         | Inr p0 \<Rightarrow>
        (case vec_at (points h) (i + 1) of
           Inl e \<Rightarrow> Inl e
         | Inr p1 \<Rightarrow>
        (case (if hasTangent p0 then Inr (tangent p0) else vec_at autoTangents i) of
           Inl e \<Rightarrow> Inl e
         | Inr t0 \<Rightarrow>
        (case (if hasTangent p1 then Inr (tangent p1) else vec_at autoTangents (i + 1)) of
           Inl e \<Rightarrow> Inl e
         | Inr t1 \<Rightarrow>
        (case sampleLoop (sampleResolutionH h) (positionH p0) t0 (positionH p1) t1 0 path of
           Inl e \<Rightarrow> Inl e
         | Inr path' \<Rightarrow> segmentLoop h autoTangents (i + 1) path')))))
      else Inr path)"
  by pat_completeness auto
termination
  by (relation "measure (\<lambda>(h, autoTangents, i, path). nat (int (length (points h)) - 1 - i))") auto

text \<open>
  \<^verbatim>\<open>drawHermiteCurve\<close>: the result is the path handed to \<^verbatim>\<open>painter.drawPath\<close>; the early
  return draws nothing.
\<close>

definition drawHermiteCurve :: "HermiteEditor \<Rightarrow> error + PathElement list" where
  "drawHermiteCurve h =
     (if int (length (points h)) < 2 then Inr []
      else
        (case autoTangentsLoop (points h) 0 (replicate (length (points h)) (QPointF 0 0)) of
           Inl e \<Rightarrow> Inl e
         | Inr autoTangents \<Rightarrow> segmentLoop h autoTangents 0 []))"

text \<open>
  The Hermite segment as the specification words it: the four cubic blending polynomials,
  the automatic tangent of point \<open>i\<close> from the positions alone, and the tangent a point
  resolves to.
\<close>

definition h00 :: "real \<Rightarrow> real" where
  "h00 t = 2 * t ^ 3 - 3 * t ^ 2 + 1"

definition h10 :: "real \<Rightarrow> real" where
  "h10 t = t ^ 3 - 2 * t ^ 2 + t"

definition h01 :: "real \<Rightarrow> real" where
  "h01 t = - 2 * t ^ 3 + 3 * t ^ 2"

definition h11 :: "real \<Rightarrow> real" where
  "h11 t = t ^ 3 - t ^ 2"

definition hermitePoint :: "QPointF \<Rightarrow> QPointF \<Rightarrow> QPointF \<Rightarrow> QPointF \<Rightarrow> real \<Rightarrow> QPointF" where
  "hermitePoint p0 t0 p1 t1 t =
     padd (padd (padd (pscale (h00 t) p0) (pscale (h10 t) t0)) (pscale (h01 t) p1)) (pscale (h11 t) t1)"

definition autoTangent :: "QPointF list \<Rightarrow> nat \<Rightarrow> QPointF" where
  "autoTangent pos i =
     (let n = length pos - 1
      in if i = 0 then pscale (1 / 2) (psub (pos ! 1) (pos ! 0))
         else if i = n then pscale (1 / 2) (psub (pos ! n) (pos ! (n - 1)))
         else pscale (1 / 2) (psub (pos ! (i + 1)) (pos ! (i - 1))))"

definition resolvedTangent :: "InterpPoint list \<Rightarrow> nat \<Rightarrow> QPointF" where
  "resolvedTangent pts i =
     (if hasTangent (pts ! i) then tangent (pts ! i) else autoTangent (map positionH pts) i)"

text \<open>Sample \<open>j\<close> of segment \<open>i\<close>, and all samples of segment \<open>i\<close>.\<close>

definition segmentSample :: "HermiteEditor \<Rightarrow> nat \<Rightarrow> nat \<Rightarrow> PathElement" where
  "segmentSample h i j =
     (let pt = hermitePoint (positionH (points h ! i)) (resolvedTangent (points h) i)
                 (positionH (points h ! (i + 1))) (resolvedTangent (points h) (i + 1))
                 (real j / real_of_int (sampleResolutionH h))
      in if j = 0 then MoveTo pt else LineTo pt)"

definition segmentSamples :: "HermiteEditor \<Rightarrow> nat \<Rightarrow> PathElement list" where
  "segmentSamples h i = map (segmentSample h i) [0..<nat (sampleResolutionH h) + 1]"

text \<open>
  The scenario of the specification: three points at \<open>(0,0)\<close>, \<open>(100,0)\<close>, \<open>(200,50)\<close>, as
  \<^verbatim>\<open>mouseDoubleClickEvent\<close> creates them (no explicit tangent), resolution \<open>4\<close>.
\<close>

definition scenarioHermite :: HermiteEditor where
  "scenarioHermite =
     \<lparr>points =
        [\<lparr>positionH = QPointF 0 0, tangent = QPointF 50 0, hasTangent = False\<rparr>,
         \<lparr>positionH = QPointF 100 0, tangent = QPointF 50 0, hasTangent = False\<rparr>,
         \<lparr>positionH = QPointF 200 50, tangent = QPointF 50 25, hasTangent = False\<rparr>],
      sampleResolutionH = 4\<rparr>"

text \<open>
  Two Hermite editors hold the same curve data when they agree on the resolution, the
  positions, the \<^verbatim>\<open>hasTangent\<close> flags and the tangents of the points whose flag is set; the
  stored tangent of a point whose flag is clear is left free.
\<close>

definition sameCurveData :: "HermiteEditor \<Rightarrow> HermiteEditor \<Rightarrow> bool" where
  "sameCurveData h h' =
     (sampleResolutionH h' = sampleResolutionH h \<and>
      length (points h') = length (points h) \<and>
      list_all2 (\<lambda>p p'. positionH p' = positionH p \<and> hasTangent p' = hasTangent p \<and>
                        (hasTangent p \<longrightarrow> tangent p' = tangent p))
        (points h) (points h'))"

section \<open>The NURBS editor: event handlers\<close>

text \<open>
  \<^verbatim>\<open>qAtan2(y, x)\<close> is the C library's \<^verbatim>\<open>atan2\<close>: the angle of the vector \<open>(x, y)\<close> in
  \<open>(-\<pi>, \<pi>]\<close>, and \<open>0\<close> at the origin (signed zeros are not modelled).
\<close>

definition qAtan2 :: "real \<Rightarrow> real \<Rightarrow> real" where
  "qAtan2 y x =
     (if 0 < x then arctan (y / x)
      else if x < 0 \<and> 0 \<le> y then arctan (y / x) + pi
      else if x < 0 then arctan (y / x) - pi
      else if 0 < y then pi / 2
      else if y < 0 then - pi / 2
      else 0)"

text \<open>Reading and writing the object \<^verbatim>\<open>selectedPoint\<close> points to.\<close>

definition selected :: "NURBSEditor \<Rightarrow> error + ControlPoint" where
  "selected s =
     (case selectedPoint s of
        None \<Rightarrow> Inl NullPointer
      | Some k \<Rightarrow> vec_at (controlPoints s) (int k))"

definition setSelected :: "NURBSEditor \<Rightarrow> ControlPoint \<Rightarrow> error + NURBSEditor" where
  "setSelected s cp =
     (case selectedPoint s of
        None \<Rightarrow> Inl NullPointer
      | Some k \<Rightarrow>
         (case vec_put (controlPoints s) (int k) cp of
            Inl e \<Rightarrow> Inl e
          | Inr cps \<Rightarrow> Inr (s\<lparr>controlPoints := cps\<rparr>)))"

definition updateSlopeHandlePositions :: "ControlPoint \<Rightarrow> error + ControlPoint" where
  "updateSlopeHandlePositions cp =
     (let angle = slopeAngle cp;
          visualLength = min (weight cp * HANDLE_RADIUS) 600
      in case vec_put (slopeHandles cp) 0
                (QPointF (x_of (position cp) + visualLength * cos angle)
                         (y_of (position cp) + visualLength * sin angle)) of
           Inl e \<Rightarrow> Inl e
         | Inr hs \<Rightarrow>
            (case vec_put hs 1
                    (QPointF (x_of (position cp) - visualLength * cos angle)
                             (y_of (position cp) - visualLength * sin angle)) of
               Inl e \<Rightarrow> Inl e
             | Inr hs' \<Rightarrow> Inr (cp\<lparr>slopeHandles := hs'\<rparr>)))"

text \<open>
  \<^verbatim>\<open>updateSlopeHandles(p)\<close>, the handle drag (the specification's
  \<^verbatim>\<open>setWeightFromHandleDrag\<close>). \<^verbatim>\<open>HANDLE_RADIUS\<close> is the constant \<open>60\<close>, so the division is
  by a non-zero number.
\<close>

definition updateSlopeHandles :: "NURBSEditor \<Rightarrow> QPointF \<Rightarrow> error + NURBSEditor" where
  "updateSlopeHandles s p =
     (case selected s of
        Inl e \<Rightarrow> Inl e
      | Inr cp \<Rightarrow>
         (let center = position cp;
              dx = x_of p - x_of center;
              dy = y_of p - y_of center;
              distance = sqrt (dx * dx + dy * dy);
              cp' = cp\<lparr>slopeAngle := qAtan2 dy dx,
                       weight := max (1 / 10) (distance / HANDLE_RADIUS)\<rparr>
          in case updateSlopeHandlePositions cp' of
               Inl e \<Rightarrow> Inl e
             | Inr cp'' \<Rightarrow> setSelected s cp''))"

definition createNewControlPoint :: "NURBSEditor \<Rightarrow> QPointF \<Rightarrow> NURBSEditor" where
  "createNewControlPoint s p =
     s\<lparr>controlPoints := controlPoints s @ [initSlopeHandles (ControlPoint_new p)],
       selectedPoint := Some (length (controlPoints s))\<rparr>"

text \<open>
  \<^verbatim>\<open>deleteControlPoint(p)\<close>: the iterator is the index \<open>it\<close>. Erasing element \<open>it\<close> moves the
  later elements one place down; a selected element behind it keeps its identity, so its
  index goes down with it.
\<close>

function deleteControlPointLoop :: "QPointF \<Rightarrow> nat \<Rightarrow> NURBSEditor \<Rightarrow> NURBSEditor" where
  "deleteControlPointLoop p it s =
     (if it < length (controlPoints s) then
        (if lineLength p (position (controlPoints s ! it)) < SNAP_DISTANCE then
           deleteControlPointLoop p it
             (s\<lparr>selectedPoint :=
                  (case selectedPoint s of
                     None \<Rightarrow> None
                   | Some k \<Rightarrow> if k = it then None else if it < k then Some (k - 1) else Some k),
                controlPoints := take it (controlPoints s) @ drop (it + 1) (controlPoints s)\<rparr>)
         else deleteControlPointLoop p (it + 1) s)
      else s)"
  by pat_completeness auto
termination
  by (relation "measure (\<lambda>(p, it, s). length (controlPoints s) - it)") auto

definition deleteControlPoint :: "NURBSEditor \<Rightarrow> QPointF \<Rightarrow> NURBSEditor" where
  "deleteControlPoint s p = deleteControlPointLoop p 0 s"

text \<open>The loop of \<^verbatim>\<open>trySelectSlopeHandle\<close>: the first handle closer than \<^verbatim>\<open>HANDLE_SIZE\<close>.\<close>

fun handleLoop :: "QPointF \<Rightarrow> QPointF list \<Rightarrow> nat \<Rightarrow> nat option" where
  "handleLoop p [] k = None"
| "handleLoop p (handle # hs) k =
     (if lineLength p handle < HANDLE_SIZE then Some k else handleLoop p hs (k + 1))"

definition trySelectSlopeHandle :: "NURBSEditor \<Rightarrow> QPointF \<Rightarrow> error + bool \<times> NURBSEditor" where
  "trySelectSlopeHandle s p =
     (if selectedPoint s = None then Inr (False, s)
      else
        (case selected s of
           Inl e \<Rightarrow> Inl e
         | Inr cp \<Rightarrow>
            (case handleLoop p (slopeHandles cp) 0 of
               None \<Rightarrow> Inr (False, s)
             | Some k \<Rightarrow> Inr (True, s\<lparr>activeSlopeHandle := Some k\<rparr>))))"

text \<open>The loop of \<^verbatim>\<open>mousePressEvent\<close>: the first control point closer than \<^verbatim>\<open>SNAP_DISTANCE\<close>.\<close>

fun pointLoop :: "QPointF \<Rightarrow> ControlPoint list \<Rightarrow> nat \<Rightarrow> nat option" where
  "pointLoop p [] k = None"
| "pointLoop p (cp # cps) k =
     (if lineLength p (position cp) < SNAP_DISTANCE then Some k else pointLoop p cps (k + 1))"

datatype MouseButton = LeftButton | RightButton | OtherButton

definition mousePressEvent :: "NURBSEditor \<Rightarrow> MouseButton \<Rightarrow> QPointF \<Rightarrow> error + NURBSEditor" where
  "mousePressEvent s button pos =
     (case button of
        RightButton \<Rightarrow> Inr (deleteControlPoint s pos)
      | LeftButton \<Rightarrow>
         (case trySelectSlopeHandle s pos of
            Inl e \<Rightarrow> Inl e
          | Inr (handleHit, s1) \<Rightarrow>
             (let (pointHit, s2) =
                    (if \<not> handleHit then
                       (case pointLoop pos (controlPoints s1) 0 of
                          None \<Rightarrow> (False, s1)
                        | Some k \<Rightarrow> (True, s1\<lparr>selectedPoint := Some k, isDraggingPoint := True\<rparr>))
                     else (False, s1))
              in Inr (if \<not> pointHit \<and> activeSlopeHandle s2 = None
                      then s2\<lparr>selectedPoint := None\<rparr> else s2)))
      | OtherButton \<Rightarrow> Inr s)"

definition mouseMoveEvent :: "NURBSEditor \<Rightarrow> QPointF \<Rightarrow> error + NURBSEditor" where
  "mouseMoveEvent s pos =
     (if activeSlopeHandle s \<noteq> None \<and> selectedPoint s \<noteq> None then updateSlopeHandles s pos
      else if selectedPoint s \<noteq> None \<and> isDraggingPoint s then
        (case selected s of
           Inl e \<Rightarrow> Inl e
         | Inr cp \<Rightarrow>
            (let newPos = QPointF (qBound 20 (x_of pos) (real_of_int (width s) - 20))
                                  (qBound 20 (y_of pos) (real_of_int (height s) - 20))
             in case updateSlopeHandlePositions (cp\<lparr>position := newPos\<rparr>) of
                  Inl e \<Rightarrow> Inl e
                | Inr cp' \<Rightarrow> setSelected s cp'))
      else Inr s)"

definition mouseDoubleClickEvent :: "NURBSEditor \<Rightarrow> MouseButton \<Rightarrow> QPointF \<Rightarrow> NURBSEditor" where
  "mouseDoubleClickEvent s button pos =
     (if button = LeftButton then createNewControlPoint s pos else s)"

definition mouseReleaseEvent :: "NURBSEditor \<Rightarrow> error + NURBSEditor" where
  "mouseReleaseEvent s =
     (let s1 = s\<lparr>activeSlopeHandle := None\<rparr>
      in case (if isDraggingPoint s1 \<and> selectedPoint s1 \<noteq> None then
                 (case selected s1 of
                    Inl e \<Rightarrow> Inl e
                  | Inr cp \<Rightarrow>
                     (case updateSlopeHandlePositions cp of
                        Inl e \<Rightarrow> Inl e
                      | Inr cp' \<Rightarrow> setSelected s1 cp'))
               else Inr s1) of
           Inl e \<Rightarrow> Inl e
         | Inr s2 \<Rightarrow> Inr (s2\<lparr>isDraggingPoint := False\<rparr>))"

datatype Key =
    Key_Delete | Key_C | Key_Up | Key_Down | Key_V
  | Key_Plus | Key_Equal | Key_Minus
  | Key_1 | Key_2 | Key_3 | Key_4 | Key_5
  | Key_Other

text \<open>The first \<^verbatim>\<open>switch\<close> of \<^verbatim>\<open>keyPressEvent\<close>, entered with a selected point.\<close>

definition keyOnSelected :: "NURBSEditor \<Rightarrow> Key \<Rightarrow> error + NURBSEditor" where
  "keyOnSelected s key =
     (case key of
        Key_Delete \<Rightarrow>
          (case selectedPoint s of
             None \<Rightarrow> Inr s
           | Some k \<Rightarrow>
              if k < length (controlPoints s)
              then Inr (s\<lparr>controlPoints := take k (controlPoints s) @ drop (k + 1) (controlPoints s),
                          selectedPoint := None\<rparr>)
              else Inr s)
      | Key_C \<Rightarrow> Inr (s\<lparr>controlPoints := [], selectedPoint := None\<rparr>)
      | Key_Up \<Rightarrow>
          (case selected s of
             Inl e \<Rightarrow> Inl e
           | Inr cp \<Rightarrow>
              (case updateSlopeHandlePositions (cp\<lparr>weight := weight cp + 1 / 100\<rparr>) of
                 Inl e \<Rightarrow> Inl e
               | Inr cp' \<Rightarrow> setSelected s cp'))
      | Key_Down \<Rightarrow>
          (case selected s of
             Inl e \<Rightarrow> Inl e
           | Inr cp \<Rightarrow>
              (case updateSlopeHandlePositions (cp\<lparr>weight := max (weight cp - 1 / 100) (1 / 10)\<rparr>) of
                 Inl e \<Rightarrow> Inl e
               | Inr cp' \<Rightarrow> setSelected s cp'))
      | Key_V \<Rightarrow> Inr (s\<lparr>showControlPoints := \<not> showControlPoints s\<rparr>)
      | _ \<Rightarrow> Inr s)"

text \<open>The second \<^verbatim>\<open>switch\<close>: sampling resolution and degree.\<close>

definition keyOnParameters :: "NURBSEditor \<Rightarrow> Key \<Rightarrow> NURBSEditor" where
  "keyOnParameters s key =
     (case key of
        Key_Plus \<Rightarrow> s\<lparr>sampleResolution := min (sampleResolution s + 10) 1000\<rparr>
      | Key_Equal \<Rightarrow> s\<lparr>sampleResolution := min (sampleResolution s + 10) 1000\<rparr>
      | Key_Minus \<Rightarrow> s\<lparr>sampleResolution := max (sampleResolution s - 10) 10\<rparr>
      | Key_1 \<Rightarrow> s\<lparr>degree := 1\<rparr>
      | Key_2 \<Rightarrow> s\<lparr>degree := 2\<rparr>
      | Key_3 \<Rightarrow> s\<lparr>degree := 3\<rparr>
      | Key_4 \<Rightarrow> s\<lparr>degree := 4\<rparr>
      | Key_5 \<Rightarrow> s\<lparr>degree := 5\<rparr>
      | _ \<Rightarrow> s)"

definition keyPressEvent :: "NURBSEditor \<Rightarrow> Key \<Rightarrow> error + NURBSEditor" where
  "keyPressEvent s key =
     (case (if selectedPoint s \<noteq> None then keyOnSelected s key else Inr s) of
        Inl e \<Rightarrow> Inl e
      | Inr s1 \<Rightarrow> Inr (keyOnParameters s1 key))"

text \<open>
  The events the widget receives, and the editor after a sequence of them. \<open>Resize\<close> stands
  for a change of the widget's \<^verbatim>\<open>width()\<close> and \<^verbatim>\<open>height()\<close>.
\<close>

datatype Event =
    MousePress MouseButton QPointF
  | MouseMove QPointF
  | MouseDoubleClick MouseButton QPointF
  | MouseRelease
  | KeyPress Key
  | Resize int int

fun handleEvent :: "NURBSEditor \<Rightarrow> Event \<Rightarrow> error + NURBSEditor" where
  "handleEvent s (MousePress button pos) = mousePressEvent s button pos"
| "handleEvent s (MouseMove pos) = mouseMoveEvent s pos"
| "handleEvent s (MouseDoubleClick button pos) = Inr (mouseDoubleClickEvent s button pos)"
| "handleEvent s MouseRelease = mouseReleaseEvent s"
| "handleEvent s (KeyPress key) = keyPressEvent s key"
| "handleEvent s (Resize w h) = Inr (s\<lparr>width := w, height := h\<rparr>)"

fun handleEvents :: "NURBSEditor \<Rightarrow> Event list \<Rightarrow> error + NURBSEditor" where
  "handleEvents s [] = Inr s"
| "handleEvents s (ev # evs) =
     (case handleEvent s ev of
        Inl e \<Rightarrow> Inl e
      | Inr s' \<Rightarrow> handleEvents s' evs)"

text \<open>
  What every reachable editor satisfies: each weight is at least \<open>0.1\<close>, each control point
  has its two handles, and the selection is a control point of the editor.
\<close>

definition editorInvariant :: "NURBSEditor \<Rightarrow> bool" where
  "editorInvariant s =
     (list_all (\<lambda>cp. 1 / 10 \<le> weight cp \<and> length (slopeHandles cp) = 2) (controlPoints s) \<and>
      (case selectedPoint s of None \<Rightarrow> True | Some k \<Rightarrow> k < length (controlPoints s)))"

text \<open>The part of the invariant that speaks about one control point.\<close>

definition pointOk :: "ControlPoint \<Rightarrow> bool" where
  "pointOk cp = (1 / 10 \<le> weight cp \<and> length (slopeHandles cp) = 2)"

text \<open>
  The editor after a double click at \<open>(100,100)\<close> and a press on its right handle
  (\<open>draggingEditor_reached\<close> below).
\<close>

definition draggingEditor :: NURBSEditor where
  "draggingEditor =
     NURBSEditor_new
       \<lparr>controlPoints := [initSlopeHandles (ControlPoint_new (QPointF 100 100))],
        selectedPoint := Some 0, activeSlopeHandle := Some 0\<rparr>"

section \<open>Properties of knot vector synthesis\<close>

declare fillKnots.simps [simp del]

declare interiorKnots.simps [simp del]

lemma fillKnots_eq:
  "0 \<le> i \<Longrightarrow> hi < int (length ks) \<Longrightarrow>
   fillKnots v i hi ks =
     Inr (map (\<lambda>j. if i \<le> int j \<and> int j \<le> hi then v else ks ! j) [0..<length ks])"
proof (induction v i hi ks rule: fillKnots.induct)
  case (1 v i hi knots)
  show ?case
  proof (cases "i \<le> hi")
    case False
    then show ?thesis
      by (subst fillKnots.simps) (auto intro!: nth_equalityI)
  next
    case True
    with 1 have put: "vec_put knots i v = Inr (knots[nat i := v])"
      by (simp add: vec_put_def)
    have "fillKnots v (i + 1) hi (knots[nat i := v]) =
       Inr (map (\<lambda>j. if i + 1 \<le> int j \<and> int j \<le> hi then v else (knots[nat i := v]) ! j)
              [0..<length (knots[nat i := v])])"
      using 1 True put by simp
    also have "\<dots> = Inr (map (\<lambda>j. if i \<le> int j \<and> int j \<le> hi then v else knots ! j) [0..<length knots])"
      using 1 True by (auto intro!: nth_equalityI simp: nth_list_update)
    finally show ?thesis
      using True put by (subst fillKnots.simps) simp
  qed
qed

lemma interiorKnots_eq:
  "0 \<le> i \<Longrightarrow> hi \<le> int (length ks) \<Longrightarrow> n - deg + 1 \<noteq> 0 \<Longrightarrow>
   interiorKnots n deg i hi ks =
     Inr (map (\<lambda>j. if i \<le> int j \<and> int j < hi
                    then real_of_int (int j - deg) / real_of_int (n - deg + 1) else ks ! j)
            [0..<length ks])"
proof (induction n deg i hi ks rule: interiorKnots.induct)
  case (1 n deg i hi knots)
  let ?q = "real_of_int (i - deg) / real_of_int (n - deg + 1)"
  show ?case
  proof (cases "i < hi")
    case False
    then show ?thesis
      by (subst interiorKnots.simps) (auto intro!: nth_equalityI)
  next
    case True
    from 1 have dv: "ddiv (real_of_int (i - deg)) (real_of_int (n - deg + 1)) = Inr ?q"
      by (simp add: ddiv_def)
    from 1 True have put: "vec_put knots i ?q = Inr (knots[nat i := ?q])"
      by (simp add: vec_put_def)
    have "interiorKnots n deg (i + 1) hi (knots[nat i := ?q]) =
       Inr (map (\<lambda>j. if i + 1 \<le> int j \<and> int j < hi
                    then real_of_int (int j - deg) / real_of_int (n - deg + 1)
                    else (knots[nat i := ?q]) ! j)
              [0..<length (knots[nat i := ?q])])"
      using 1 True put dv by simp
    also have "\<dots> = Inr (map (\<lambda>j. if i \<le> int j \<and> int j < hi
                    then real_of_int (int j - deg) / real_of_int (n - deg + 1) else knots ! j)
            [0..<length knots])"
      using 1 True by (auto intro!: nth_equalityI simp: nth_list_update)
    finally show ?thesis
      using True put dv by (subst interiorKnots.simps) simp
  qed
qed

lemma interiorKnots_skip: "hi \<le> i \<Longrightarrow> interiorKnots n deg i hi ks = Inr ks"
  by (subst interiorKnots.simps) simp

lemma generateKnots_closed:
  assumes d0: "0 \<le> degree s"
  shows "generateKnots s =
     Inr (map (knotEntry (int (length (controlPoints s)) - 1) (degree s))
            [0..<length (controlPoints s) + nat (degree s) + 1])"
proof -
  let ?d = "degree s"
  define n where "n = int (length (controlPoints s)) - 1"
  define len where "len = length (controlPoints s) + nat (degree s) + 1"
  define m where "m = n + ?d + 1"
  have n1: "- 1 \<le> n" and len: "int len = m + 1"
    using assms by (simp_all add: n_def len_def m_def)
  define k0 where "k0 = replicate (nat (m + 1)) (0::real)"
  define k1 where "k1 = map (\<lambda>j. if 0 \<le> int j \<and> int j \<le> ?d then 0 else k0 ! j) [0..<length k0]"
  define k2 where "k2 = map (\<lambda>j. if m - ?d \<le> int j \<and> int j \<le> m then 1 else k1 ! j) [0..<length k1]"
  have l0: "length k0 = len" and l1: "length k1 = len" and l2: "length k2 = len"
    using len by (simp_all add: k0_def k1_def k2_def)
  have f1: "fillKnots 0 0 ?d k0 = Inr k1"
    unfolding k1_def using d0 n1 len l0 by (intro fillKnots_eq) (auto simp: m_def)
  have f2: "fillKnots 1 (m - ?d) m k1 = Inr k2"
    unfolding k2_def using d0 n1 len l1 by (intro fillKnots_eq) (auto simp: m_def)
  have e2: "k2 ! j = (if n < int j then 1 else 0)" if "j < len" for j
    using that d0 n1 len l0 by (auto simp: k2_def k1_def k0_def m_def)
  have f3: "interiorKnots n ?d (?d + 1) (m - ?d) k2 = Inr (map (knotEntry n ?d) [0..<len])"
  proof (cases "?d + 1 < m - ?d")
    case False
    then have "interiorKnots n ?d (?d + 1) (m - ?d) k2 = Inr k2"
      by (intro interiorKnots_skip) simp
    moreover have "k2 = map (knotEntry n ?d) [0..<len]"
      using False l2 e2 by (intro nth_equalityI) (auto simp: knotEntry_def m_def)
    ultimately show ?thesis by simp
  next
    case True
    then have "interiorKnots n ?d (?d + 1) (m - ?d) k2 =
      Inr (map (\<lambda>j. if ?d + 1 \<le> int j \<and> int j < m - ?d
                    then real_of_int (int j - ?d) / real_of_int (n - ?d + 1) else k2 ! j)
            [0..<length k2])"
      using d0 len l2 by (intro interiorKnots_eq) (auto simp: m_def)
    moreover have "map (\<lambda>j. if ?d + 1 \<le> int j \<and> int j < m - ?d
                    then real_of_int (int j - ?d) / real_of_int (n - ?d + 1) else k2 ! j)
            [0..<length k2] = map (knotEntry n ?d) [0..<len]"
      using True l2 e2 by (intro nth_equalityI) (auto simp: knotEntry_def m_def)
    ultimately show ?thesis by simp
  qed
  have "generateKnots s = Inr (map (knotEntry n ?d) [0..<len])"
    unfolding generateKnots_def Let_def n_def [symmetric] m_def [symmetric] k0_def [symmetric]
    by (simp add: f1 f2 f3)
  then show ?thesis
    by (simp only: n_def len_def)
qed

lemma knotEntry_mono:
  assumes "j \<le> k"
  shows "knotEntry n d j \<le> knotEntry n d k"
proof -
  have pos: "0 < real_of_int (n - d + 1)" if "int j \<le> n" "d < int j" for j
    using that by simp
  show ?thesis
    using assms
    by (auto simp: knotEntry_def divide_le_eq_1 le_divide_eq_1 divide_simps)
qed


section \<open>Properties of the basis functions\<close>

declare basisFunction.simps [simp del]

declare nurbsSum.simps [simp del]

lemma basisFunction_refines:
  "i + p + 1 < length knots \<Longrightarrow>
   basisFunction (int p) (int i) knots t = Inr (coxDeBoor (1 / 10 ^ 12) knots t p i)"
proof (induction p arbitrary: i)
  case 0
  then have "vec_at knots (int i) = Inr (knots ! i)"
    "vec_at knots (int i + 1) = Inr (knots ! (i + 1))"
    by (simp_all add: vec_at_def nat_add_distrib)
  then show ?case
    by (subst basisFunction.simps) simp
next
  case (Suc q)
  have a: "basisFunction (int (Suc q) - 1) (int i) knots t = Inr (coxDeBoor (1 / 10 ^ 12) knots t q i)"
    using Suc.IH [of i] Suc.prems by simp
  have b: "basisFunction (int (Suc q) - 1) (int i + 1) knots t = Inr (coxDeBoor (1 / 10 ^ 12) knots t q (i + 1))"
    using Suc.IH [of "i + 1"] Suc.prems by (simp add: add.commute)
  have r: "vec_at knots (int i + int (Suc q)) = Inr (knots ! (i + Suc q))"
     "vec_at knots (int i) = Inr (knots ! i)"
     "vec_at knots (int i + int (Suc q) + 1) = Inr (knots ! (i + Suc q + 1))"
     "vec_at knots (int i + 1) = Inr (knots ! (i + 1))"
    using Suc.prems by (simp_all add: vec_at_def nat_add_distrib)
  show ?case
    by (subst basisFunction.simps) (simp add: a b r qFuzzyIsNull_def del: of_nat_Suc)
qed

lemma basisDivisors_not_null:
  "d \<in> set (basisDivisors p i knots t) \<Longrightarrow> \<not> qFuzzyIsNull d"
  by (induction p arbitrary: i) (auto simp: Let_def split: if_splits)

lemma sorted_knotEntry: "sorted (map (knotEntry n d) [0..<len])"
  by (simp add: sorted_iff_nth_mono knotEntry_mono del: upt_Suc)

lemma basisFunction_in_range:
  assumes "0 \<le> p" and "0 \<le> i" and "i + p + 1 < int (length knots)"
  shows "basisFunction p i knots t = Inr (coxDeBoor (1 / 10 ^ 12) knots t (nat p) (nat i))"
proof -
  have "nat i + nat p + 1 < length knots"
    using assms by linarith
  from basisFunction_refines [OF this, of t] show ?thesis
    using assms by simp
qed

section \<open>Properties of the Hermite sampling loops\<close>

declare autoTangentsLoop.simps [simp del]

declare sampleLoop.simps [simp del]

declare segmentLoop.simps [simp del]

lemma autoTangentsLoop_eq:
  assumes "2 \<le> length pts" and "length ats = length pts"
  shows "autoTangentsLoop pts (int i) ats =
     Inr (map (\<lambda>k. if i \<le> k then autoTangent (map positionH pts) k else ats ! k) [0..<length pts])"
  using assms
proof (induction "length pts - i" arbitrary: i ats)
  case 0
  then have "\<not> int i < int (length pts)" by simp
  then have "autoTangentsLoop pts (int i) ats = Inr ats"
    by (subst autoTangentsLoop.simps) simp
  moreover have "ats = map (\<lambda>k. if i \<le> k then autoTangent (map positionH pts) k else ats ! k) [0..<length pts]"
    using 0 by (intro nth_equalityI) auto
  ultimately show ?case by simp
next
  case (Suc d)
  then have lt: "i < length pts" by simp
  let ?v = "autoTangent (map positionH pts) i"
  have hd: "(if int i = 0 then halfDifference pts (int i + 1) (int i)
               else if int i = int (length pts) - 1 then halfDifference pts (int i) (int i - 1)
               else halfDifference pts (int i + 1) (int i - 1)) = Inr ?v"
    using lt Suc.prems
    by (auto simp: halfDifference_def vec_at_def autoTangent_def Let_def nat_add_distrib
        nat_diff_distrib' of_nat_diff numeral_2_eq_2)
  have put: "vec_put ats (int i) ?v = Inr (ats[i := ?v])"
    using lt Suc.prems by (simp add: vec_put_def)
  have "autoTangentsLoop pts (int (Suc i)) (ats[i := ?v]) =
     Inr (map (\<lambda>k. if Suc i \<le> k then autoTangent (map positionH pts) k else (ats[i := ?v]) ! k)
            [0..<length pts])"
    using Suc by (intro Suc.hyps(1)) auto
  also have "\<dots> = Inr (map (\<lambda>k. if i \<le> k then autoTangent (map positionH pts) k else ats ! k)
            [0..<length pts])"
    using lt Suc.prems by (auto intro!: nth_equalityI simp: nth_list_update dest: le_antisym)
  finally have ih: "autoTangentsLoop pts (int i + 1) (ats[i := ?v]) =
     Inr (map (\<lambda>k. if i \<le> k then autoTangent (map positionH pts) k else ats ! k) [0..<length pts])"
    by (simp add: add.commute)
  show ?case
    using lt hd put ih by (subst autoTangentsLoop.simps) simp
qed

lemma sampleLoop_point:
  "padd (padd (padd (pscale (2 * t * t * t - 3 * t * t + 1) p0) (pscale (t * t * t - 2 * t * t + t) t0))
        (pscale (- 2 * t * t * t + 3 * t * t) p1)) (pscale (t * t * t - t * t) t1)
   = hermitePoint p0 t0 p1 t1 t"
  by (simp add: hermitePoint_def h00_def h10_def h01_def h11_def power3_eq_cube power2_eq_square
      mult.assoc)

lemma sampleLoop_eq:
  assumes "0 < res"
  shows "sampleLoop res p0 t0 p1 t1 (int j) path =
     Inr (path @ map (\<lambda>k. if k = 0 then MoveTo (hermitePoint p0 t0 p1 t1 (real k / real_of_int res))
                            else LineTo (hermitePoint p0 t0 p1 t1 (real k / real_of_int res)))
                   [j..<nat res + 1])"
proof (induction "nat res + 1 - j" arbitrary: j path)
  case 0
  then have "\<not> int j \<le> res" by linarith
  moreover from 0 have "[j..<nat res + 1] = []" by simp
  ultimately show ?case
    by (subst sampleLoop.simps) simp
next
  case (Suc d)
  from Suc.hyps(2) have "j < nat res + 1" by simp
  with assms have le: "int j \<le> res" by linarith
  have dv: "ddiv (real_of_int (int j)) (real_of_int res) = Inr (real j / real_of_int res)"
    using assms by (simp add: ddiv_def)
  let ?f = "\<lambda>k. if k = 0 then MoveTo (hermitePoint p0 t0 p1 t1 (real k / real_of_int res))
                            else LineTo (hermitePoint p0 t0 p1 t1 (real k / real_of_int res))"
  have "sampleLoop res p0 t0 p1 t1 (int (Suc j)) (path @ [?f j]) =
     Inr ((path @ [?f j]) @ map ?f [Suc j..<nat res + 1])"
    using Suc by (intro Suc.hyps(1)) auto
  then have ih: "sampleLoop res p0 t0 p1 t1 (int j + 1) (path @ [?f j]) =
     Inr (path @ ?f j # map ?f [Suc j..<nat res + 1])"
    by (simp add: add.commute)
  have up: "[j..<nat res + 1] = j # [Suc j..<nat res + 1]"
    using le by (intro upt_conv_Cons) linarith
  show ?case
    unfolding up
    by (subst sampleLoop.simps)
       (simp only: le if_True dv sum.case Let_def sampleLoop_point of_nat_eq_0_iff ih list.map)
qed

lemma segmentLoop_eq:
  assumes "0 < sampleResolutionH h"
    and "ats = map (autoTangent (map positionH (points h))) [0..<length (points h)]"
  shows "segmentLoop h ats (int i) path =
     Inr (path @ concat (map (segmentSamples h) [i..<length (points h) - 1]))"
proof (induction "length (points h) - 1 - i" arbitrary: i path)
  case 0
  then have "\<not> int i < int (length (points h)) - 1" by linarith
  moreover from 0 have "[i..<length (points h) - 1] = []" by simp
  ultimately show ?case
    by (subst segmentLoop.simps) simp
next
  case (Suc d)
  from Suc.hyps(2) have lt: "i + 1 < length (points h)" by simp
  let ?p0 = "points h ! i" and ?p1 = "points h ! (i + 1)"
  have r0: "vec_at (points h) (int i) = Inr ?p0"
    and r1: "vec_at (points h) (int i + 1) = Inr ?p1"
    using lt by (simp_all add: vec_at_def nat_add_distrib)
  have t0: "(if hasTangent ?p0 then Inr (tangent ?p0) else vec_at ats (int i))
      = Inr (resolvedTangent (points h) i)"
    using lt assms(2) by (simp add: vec_at_def resolvedTangent_def del: upt_Suc)
  have t1: "(if hasTangent ?p1 then Inr (tangent ?p1) else vec_at ats (int i + 1))
      = Inr (resolvedTangent (points h) (i + 1))"
    using lt assms(2) by (simp add: vec_at_def resolvedTangent_def nat_add_distrib del: upt_Suc)
  have sl: "sampleLoop (sampleResolutionH h) (positionH ?p0) (resolvedTangent (points h) i)
      (positionH ?p1) (resolvedTangent (points h) (i + 1)) 0 path = Inr (path @ segmentSamples h i)"
    using sampleLoop_eq [OF assms(1), of _ _ _ _ 0 path]
    by (simp add: segmentSamples_def segmentSample_def Let_def del: upt_Suc)
  have "segmentLoop h ats (int (Suc i)) (path @ segmentSamples h i) =
     Inr ((path @ segmentSamples h i) @ concat (map (segmentSamples h) [Suc i..<length (points h) - 1]))"
    using Suc by (intro Suc.hyps(1)) auto
  then have ih: "segmentLoop h ats (int i + 1) (path @ segmentSamples h i) =
     Inr (path @ segmentSamples h i @ concat (map (segmentSamples h) [Suc i..<length (points h) - 1]))"
    by (simp add: add.commute)
  have up: "[i..<length (points h) - 1] = i # [Suc i..<length (points h) - 1]"
    using lt by (intro upt_conv_Cons) linarith
  have lt': "int i < int (length (points h)) - 1"
    using lt by linarith
  show ?case
    unfolding up
    by (subst segmentLoop.simps) (simp only: lt' if_True r0 r1 t0 t1 sl ih sum.case concat.simps list.map)
qed

lemma drawHermiteCurve_closed:
  assumes "2 \<le> length (points h)" and "0 < sampleResolutionH h"
  shows "drawHermiteCurve h = Inr (concat (map (segmentSamples h) [0..<length (points h) - 1]))"
proof -
  let ?ats = "map (autoTangent (map positionH (points h))) [0..<length (points h)]"
  have "autoTangentsLoop (points h) (int 0) (replicate (length (points h)) (QPointF 0 0)) = Inr ?ats"
    using assms(1) by (subst autoTangentsLoop_eq) simp_all
  moreover have "segmentLoop h ?ats (int 0) [] =
      Inr ([] @ concat (map (segmentSamples h) [0..<length (points h) - 1]))"
    using assms(2) by (intro segmentLoop_eq) simp_all
  ultimately show ?thesis
    using assms(1) by (simp add: drawHermiteCurve_def)
qed

lemma length_segmentSamples: "length (segmentSamples h i) = nat (sampleResolutionH h) + 1"
  by (simp add: segmentSamples_def)

lemma length_concat_blocks:
  "(\<And>i. i < n \<Longrightarrow> length (f i) = m) \<Longrightarrow> length (concat (map f [0..<n])) = n * m"
  by (induction n) simp_all

lemma nth_concat_blocks:
  "(\<And>i. i < n \<Longrightarrow> length (f i) = m) \<Longrightarrow> i < n \<Longrightarrow> j < m \<Longrightarrow>
   concat (map f [0..<n]) ! (i * m + j) = f i ! j"
proof (induction n)
  case 0
  then show ?case by simp
next
  case (Suc n)
  have len: "length (concat (map f [0..<n])) = n * m"
    using Suc.prems(1) by (intro length_concat_blocks) simp
  show ?case
  proof (cases "i < n")
    case True
    then have "i * m + j < n * m"
      using Suc.prems(3)
      by (metis add.commute mult_Suc less_le_trans add_less_cancel_left Suc_leI mult_le_mono1)
    with True Suc show ?thesis
      by (simp add: nth_append len)
  next
    case False
    with Suc.prems have "i = n" by simp
    then show ?thesis
      by (simp add: nth_append len)
  qed
qed

lemma h_at_0: "h00 0 = 1" "h10 0 = 0" "h01 0 = 0" "h11 0 = 0"
  by (simp_all add: h00_def h10_def h01_def h11_def)

lemma h_at_1: "h00 1 = 0" "h10 1 = 0" "h01 1 = 1" "h11 1 = 0"
  by (simp_all add: h00_def h10_def h01_def h11_def)

lemma hermitePoint_0: "hermitePoint p0 t0 p1 t1 0 = p0"
  by (simp add: hermitePoint_def h_at_0 padd_def pscale_def)

lemma hermitePoint_1: "hermitePoint p0 t0 p1 t1 1 = p1"
  by (simp add: hermitePoint_def h_at_1 padd_def pscale_def)

lemma pointOf_segmentSample:
  "pointOf (segmentSample h i j) =
     hermitePoint (positionH (points h ! i)) (resolvedTangent (points h) i)
       (positionH (points h ! (i + 1))) (resolvedTangent (points h) (i + 1))
       (real j / real_of_int (sampleResolutionH h))"
  by (simp add: segmentSample_def Let_def)

lemma drawHermiteCurve_nth:
  assumes "0 < sampleResolutionH h" and "i + 1 < length (points h)"
    and "j \<le> nat (sampleResolutionH h)"
  shows "drawHermiteCurve h = Inr (concat (map (segmentSamples h) [0..<length (points h) - 1]))"
    and "concat (map (segmentSamples h) [0..<length (points h) - 1])
           ! (i * (nat (sampleResolutionH h) + 1) + j) = segmentSample h i j"
proof -
  show "drawHermiteCurve h = Inr (concat (map (segmentSamples h) [0..<length (points h) - 1]))"
    using assms by (intro drawHermiteCurve_closed) simp_all
  have "concat (map (segmentSamples h) [0..<length (points h) - 1])
           ! (i * (nat (sampleResolutionH h) + 1) + j) = segmentSamples h i ! j"
    using assms by (intro nth_concat_blocks) (simp_all add: length_segmentSamples)
  also have "\<dots> = segmentSample h i j"
    using assms(3) by (simp add: segmentSamples_def del: upt_Suc)
  finally show "concat (map (segmentSamples h) [0..<length (points h) - 1])
           ! (i * (nat (sampleResolutionH h) + 1) + j) = segmentSample h i j" .
qed

lemma sameCurveData_nth:
  assumes "sameCurveData h h'" and "k < length (points h)"
  shows "positionH (points h' ! k) = positionH (points h ! k)"
    and "hasTangent (points h' ! k) = hasTangent (points h ! k)"
    and "hasTangent (points h ! k) \<Longrightarrow> tangent (points h' ! k) = tangent (points h ! k)"
proof -
  from assms(1) have "list_all2 (\<lambda>p p'. positionH p' = positionH p \<and> hasTangent p' = hasTangent p \<and>
                        (hasTangent p \<longrightarrow> tangent p' = tangent p)) (points h) (points h')"
    by (simp add: sameCurveData_def)
  from list_all2_nthD [OF this assms(2)]
  show "positionH (points h' ! k) = positionH (points h ! k)"
    and "hasTangent (points h' ! k) = hasTangent (points h ! k)"
    and "hasTangent (points h ! k) \<Longrightarrow> tangent (points h' ! k) = tangent (points h ! k)"
    by simp_all
qed

lemma sameCurveData_samples:
  assumes "sameCurveData h h'" and "i + 1 < length (points h)"
  shows "segmentSamples h' i = segmentSamples h i"
proof -
  from assms(1) have res: "sampleResolutionH h' = sampleResolutionH h"
    and len: "length (points h') = length (points h)"
    by (simp_all add: sameCurveData_def)
  have pos: "map positionH (points h') = map positionH (points h)"
    using len sameCurveData_nth(1) [OF assms(1)] by (intro nth_equalityI) simp_all
  have rt: "resolvedTangent (points h') k = resolvedTangent (points h) k"
    if "k < length (points h)" for k
    using sameCurveData_nth(2,3) [OF assms(1) that] by (simp add: resolvedTangent_def pos)
  have i0: "i < length (points h)" and i1: "Suc i < length (points h)"
    using assms(2) by simp_all
  have "segmentSample h' i j = segmentSample h i j" for j
    using sameCurveData_nth(1) [OF assms(1) i0] sameCurveData_nth(1) [OF assms(1) i1]
      rt [OF i0] rt [OF i1]
    by (simp add: segmentSample_def res)
  then show ?thesis
    by (simp add: segmentSamples_def res del: upt_Suc)
qed

lemma sameCurveData_draw:
  assumes "sameCurveData h h'" and "2 \<le> length (points h)" and "0 < sampleResolutionH h"
  shows "drawHermiteCurve h' = drawHermiteCurve h"
proof -
  from assms(1) have res: "sampleResolutionH h' = sampleResolutionH h"
    and len: "length (points h') = length (points h)"
    by (simp_all add: sameCurveData_def)
  have eq: "map (segmentSamples h') [0..<length (points h) - 1]
      = map (segmentSamples h) [0..<length (points h) - 1]"
    using sameCurveData_samples [OF assms(1)] by (intro map_cong refl) simp
  have "drawHermiteCurve h' = Inr (concat (map (segmentSamples h') [0..<length (points h') - 1]))"
    using assms(2,3) res len by (intro drawHermiteCurve_closed) simp_all
  also have "\<dots> = Inr (concat (map (segmentSamples h) [0..<length (points h) - 1]))"
    unfolding len eq ..
  also have "\<dots> = drawHermiteCurve h"
    using assms(2,3) by (intro drawHermiteCurve_closed [symmetric])
  finally show ?thesis .
qed

lemma segment_ends:
  assumes r: "0 < sampleResolutionH h" and that: "i + 1 < length (points h)"
  shows "pointOf (concat (map (segmentSamples h) [0..<length (points h) - 1])
                    ! (i * (nat (sampleResolutionH h) + 1))) = positionH (points h ! i)"
    and "pointOf (concat (map (segmentSamples h) [0..<length (points h) - 1])
                    ! (i * (nat (sampleResolutionH h) + 1) + nat (sampleResolutionH h)))
           = positionH (points h ! (i + 1))"
proof -
  let ?res = "nat (sampleResolutionH h)"
  let ?path = "concat (map (segmentSamples h) [0..<length (points h) - 1])"
  have "?path ! (i * (?res + 1) + 0) = segmentSample h i 0"
    by (rule drawHermiteCurve_nth(2) [OF r that]) simp
  then have s0: "?path ! (i * (?res + 1)) = segmentSample h i 0"
    by (simp only: add_0_right)
  have s1: "?path ! (i * (?res + 1) + ?res) = segmentSample h i ?res"
    by (rule drawHermiteCurve_nth(2) [OF r that]) simp
  have one: "real ?res / real_of_int (sampleResolutionH h) = 1"
    using r by simp
  have zero: "real 0 / real_of_int (sampleResolutionH h) = 0"
    by simp
  show "pointOf (?path ! (i * (?res + 1))) = positionH (points h ! i)"
    by (simp only: s0 pointOf_segmentSample zero hermitePoint_0)
  show "pointOf (?path ! (i * (?res + 1) + ?res)) = positionH (points h ! (i + 1))"
    by (simp only: s1 pointOf_segmentSample one hermitePoint_1)
qed

section \<open>Properties of the NURBS editor's event handlers\<close>

declare deleteControlPointLoop.simps [simp del]

lemma editorInvariant_iff:
  "editorInvariant s =
     ((\<forall>cp \<in> set (controlPoints s). pointOk cp) \<and>
      (\<forall>k. selectedPoint s = Some k \<longrightarrow> k < length (controlPoints s)))"
  by (auto simp: editorInvariant_def pointOk_def list_all_iff split: option.splits)

lemma updateSlopeHandlePositions_ok:
  assumes "length (slopeHandles cp) = 2"
  shows "\<exists>cp'. updateSlopeHandlePositions cp = Inr cp' \<and> weight cp' = weight cp \<and>
           slopeAngle cp' = slopeAngle cp \<and> position cp' = position cp \<and>
           length (slopeHandles cp') = 2"
  using assms by (simp add: updateSlopeHandlePositions_def vec_put_def Let_def)

lemma pointOk_update:
  assumes "pointOk cp" and "1 / 10 \<le> w"
  shows "\<exists>cp'. updateSlopeHandlePositions (cp\<lparr>slopeAngle := a, weight := w, position := q\<rparr>) = Inr cp' \<and>
           pointOk cp' \<and> weight cp' = w \<and> slopeAngle cp' = a \<and> position cp' = q"
proof -
  have "length (slopeHandles (cp\<lparr>slopeAngle := a, weight := w, position := q\<rparr>)) = 2"
    using assms(1) by (simp add: pointOk_def)
  from updateSlopeHandlePositions_ok [OF this] assms(2) show ?thesis
    by (auto simp: pointOk_def)
qed

lemma selected_ok:
  assumes "editorInvariant s" and "selectedPoint s = Some k"
  shows "selected s = Inr (controlPoints s ! k)" and "pointOk (controlPoints s ! k)"
    and "k < length (controlPoints s)"
proof -
  from assms show k: "k < length (controlPoints s)"
    by (simp add: editorInvariant_iff)
  then show "selected s = Inr (controlPoints s ! k)"
    using assms(2) by (simp add: selected_def vec_at_def)
  from k assms(1) show "pointOk (controlPoints s ! k)"
    by (simp add: editorInvariant_iff)
qed

lemma setSelected_ok:
  assumes "editorInvariant s" and "selectedPoint s = Some k" and "pointOk cp"
  shows "setSelected s cp = Inr (s\<lparr>controlPoints := (controlPoints s)[k := cp]\<rparr>)"
    and "editorInvariant (s\<lparr>controlPoints := (controlPoints s)[k := cp]\<rparr>)"
proof -
  from assms have k: "k < length (controlPoints s)"
    by (simp add: editorInvariant_iff)
  then show "setSelected s cp = Inr (s\<lparr>controlPoints := (controlPoints s)[k := cp]\<rparr>)"
    using assms(2) by (simp add: setSelected_def vec_put_def)
  have "set ((controlPoints s)[k := cp]) \<subseteq> insert cp (set (controlPoints s))"
    by (rule set_update_subset_insert)
  with assms show "editorInvariant (s\<lparr>controlPoints := (controlPoints s)[k := cp]\<rparr>)"
    by (auto simp: editorInvariant_iff)
qed

text \<open>Writing a point with weight \<open>w \<ge> 0.1\<close> through the selection.\<close>

lemma write_selected:
  assumes "editorInvariant s" and "selectedPoint s = Some k" and "1 / 10 \<le> w"
  shows "\<exists>cp' s'. updateSlopeHandlePositions
                     ((controlPoints s ! k)\<lparr>slopeAngle := a, weight := w, position := q\<rparr>) = Inr cp' \<and>
           setSelected s cp' = Inr s' \<and> editorInvariant s' \<and>
           s' = s\<lparr>controlPoints := (controlPoints s)[k := cp']\<rparr> \<and>
           weight cp' = w \<and> slopeAngle cp' = a \<and> position cp' = q"
proof -
  from pointOk_update [OF selected_ok(2) [OF assms(1,2)] assms(3), where a = a and q = q]
  obtain cp' where c: "updateSlopeHandlePositions
                     ((controlPoints s ! k)\<lparr>slopeAngle := a, weight := w, position := q\<rparr>) = Inr cp'"
      "pointOk cp'" "weight cp' = w" "slopeAngle cp' = a" "position cp' = q"
    by blast
  from setSelected_ok [OF assms(1,2) c(2)] c show ?thesis
    by blast
qed

lemma updateSlopeHandles_ok:
  assumes "editorInvariant s" and "selectedPoint s = Some k"
  shows "\<exists>s'. updateSlopeHandles s p = Inr s' \<and> editorInvariant s' \<and>
           length (controlPoints s') = length (controlPoints s) \<and>
           slopeAngle (controlPoints s' ! k) =
             qAtan2 (y_of p - y_of (position (controlPoints s ! k)))
                    (x_of p - x_of (position (controlPoints s ! k))) \<and>
           weight (controlPoints s' ! k) =
             max (1 / 10) (lineLength (position (controlPoints s ! k)) p / HANDLE_RADIUS)"
proof -
  let ?cp = "controlPoints s ! k"
  let ?a = "qAtan2 (y_of p - y_of (position ?cp)) (x_of p - x_of (position ?cp))"
  let ?w = "max (1 / 10) (lineLength (position ?cp) p / HANDLE_RADIUS)"
  have w: "1 / 10 \<le> ?w" by simp
  from write_selected [OF assms w, where a = ?a and q = "position ?cp"]
  obtain cp' s' where c:
    "updateSlopeHandlePositions (?cp\<lparr>slopeAngle := ?a, weight := ?w, position := position ?cp\<rparr>) = Inr cp'"
    "setSelected s cp' = Inr s'" "editorInvariant s'"
    "s' = s\<lparr>controlPoints := (controlPoints s)[k := cp']\<rparr>"
    "weight cp' = ?w" "slopeAngle cp' = ?a"
    by blast
  have "updateSlopeHandles s p = Inr s'"
    using c(1,2) selected_ok(1) [OF assms]
    by (simp add: updateSlopeHandles_def Let_def lineLength_def)
  moreover have "controlPoints s' ! k = cp'"
    using c(4) selected_ok(3) [OF assms] by simp
  ultimately show ?thesis
    using c(3,4,5,6) by auto
qed

lemma createNewControlPoint_inv:
  assumes "editorInvariant s"
  shows "editorInvariant (createNewControlPoint s p)"
  using assms
  by (auto simp: editorInvariant_iff createNewControlPoint_def pointOk_def initSlopeHandles_def
      ControlPoint_new_def)

lemma erase_subset: "set (take k xs @ drop (k + 1) xs) \<subseteq> set xs"
  using set_take_subset [of k xs] set_drop_subset [of "k + 1" xs] by auto

lemma deleteControlPointLoop_inv:
  "editorInvariant s \<Longrightarrow> editorInvariant (deleteControlPointLoop p it s)"
proof (induction p it s rule: deleteControlPointLoop.induct)
  case (1 p it s)
  show ?case
  proof (cases "it < length (controlPoints s)")
    case False
    with 1 show ?thesis
      by (subst deleteControlPointLoop.simps) simp
  next
    case lt: True
    show ?thesis
    proof (cases "lineLength p (position (controlPoints s ! it)) < SNAP_DISTANCE")
      case False
      with lt 1 show ?thesis
        by (subst deleteControlPointLoop.simps) simp
    next
      case True
      let ?s' = "s\<lparr>selectedPoint :=
                  (case selectedPoint s of
                     None \<Rightarrow> None
                   | Some k \<Rightarrow> if k = it then None else if it < k then Some (k - 1) else Some k),
                controlPoints := take it (controlPoints s) @ drop (it + 1) (controlPoints s)\<rparr>"
      have "editorInvariant ?s'"
        using "1.prems" lt erase_subset [of it "controlPoints s"]
        by (auto simp: editorInvariant_iff split: option.splits if_splits)
      with 1 lt True show ?thesis
        by (subst deleteControlPointLoop.simps) simp
    qed
  qed
qed

lemma pointLoop_bound: "pointLoop p cps k = Some j \<Longrightarrow> j < k + length cps"
proof (induction cps arbitrary: k)
  case Nil
  then show ?case by simp
next
  case (Cons cp cps)
  show ?case
  proof (cases "lineLength p (position cp) < SNAP_DISTANCE")
    case True
    with Cons.prems show ?thesis by simp
  next
    case False
    with Cons.prems have "pointLoop p cps (k + 1) = Some j" by simp
    from Cons.IH [OF this] show ?thesis by simp
  qed
qed

lemma mousePressEvent_ok:
  assumes "editorInvariant s"
  shows "\<exists>s'. mousePressEvent s button pos = Inr s' \<and> editorInvariant s'"
proof (cases button)
  case RightButton
  with assms show ?thesis
    by (simp add: mousePressEvent_def deleteControlPoint_def deleteControlPointLoop_inv)
next
  case OtherButton
  with assms show ?thesis
    by (simp add: mousePressEvent_def)
next
  case LeftButton
  have t: "\<exists>hit s1. trySelectSlopeHandle s pos = Inr (hit, s1) \<and> editorInvariant s1 \<and>
             controlPoints s1 = controlPoints s"
  proof (cases "selectedPoint s")
    case None
    with assms show ?thesis by (auto simp: trySelectSlopeHandle_def)
  next
    case (Some k)
    with assms selected_ok(1) [OF assms Some] show ?thesis
      by (auto simp: trySelectSlopeHandle_def editorInvariant_iff split: option.splits)
  qed
  then obtain hit s1 where h: "trySelectSlopeHandle s pos = Inr (hit, s1)" "editorInvariant s1"
    by blast
  have "editorInvariant (s1\<lparr>selectedPoint := Some j, isDraggingPoint := True\<rparr>)"
    if "pointLoop pos (controlPoints s1) 0 = Some j" for j
    using pointLoop_bound [OF that] h(2) by (simp add: editorInvariant_iff)
  moreover have "editorInvariant (s2\<lparr>selectedPoint := None\<rparr>)" if "editorInvariant s2" for s2
    using that by (simp add: editorInvariant_iff)
  ultimately show ?thesis
    using LeftButton h
    by (auto simp: mousePressEvent_def Let_def split: option.splits)
qed

lemma mouseMoveEvent_ok:
  assumes "editorInvariant s"
  shows "\<exists>s'. mouseMoveEvent s pos = Inr s' \<and> editorInvariant s'"
proof (cases "selectedPoint s")
  case None
  with assms show ?thesis by (simp add: mouseMoveEvent_def)
next
  case (Some k)
  let ?cp = "controlPoints s ! k"
  let ?q = "QPointF (qBound 20 (x_of pos) (real_of_int (width s) - 20))
                    (qBound 20 (y_of pos) (real_of_int (height s) - 20))"
  have w: "1 / 10 \<le> weight ?cp"
    using selected_ok(2) [OF assms Some] by (simp add: pointOk_def)
  from write_selected [OF assms Some w, where a = "slopeAngle ?cp" and q = ?q]
  have "\<exists>cp' s'. updateSlopeHandlePositions (?cp\<lparr>position := ?q\<rparr>) = Inr cp' \<and>
          setSelected s cp' = Inr s' \<and> editorInvariant s'"
    by auto
  with updateSlopeHandles_ok [OF assms Some, of pos] selected_ok(1) [OF assms Some] Some assms
  show ?thesis
    by (auto simp: mouseMoveEvent_def Let_def)
qed

lemma mouseReleaseEvent_ok:
  assumes "editorInvariant s"
  shows "\<exists>s'. mouseReleaseEvent s = Inr s' \<and> editorInvariant s'"
proof -
  let ?s1 = "s\<lparr>activeSlopeHandle := None\<rparr>"
  have i1: "editorInvariant ?s1"
    using assms by (simp add: editorInvariant_iff)
  have drop: "editorInvariant (s2\<lparr>isDraggingPoint := False\<rparr>)" if "editorInvariant s2" for s2
    using that by (simp add: editorInvariant_iff)
  show ?thesis
  proof (cases "selectedPoint s")
    case None
    with i1 drop show ?thesis by (simp add: mouseReleaseEvent_def Let_def)
  next
    case (Some k)
    then have sel: "selectedPoint ?s1 = Some k" by simp
    let ?cp = "controlPoints ?s1 ! k"
    have w: "1 / 10 \<le> weight ?cp"
      using selected_ok(2) [OF i1 sel] by (simp add: pointOk_def)
    from write_selected [OF i1 sel w, where a = "slopeAngle ?cp" and q = "position ?cp"]
    obtain cp' s' where c: "updateSlopeHandlePositions ?cp = Inr cp'"
        "setSelected ?s1 cp' = Inr s'" "editorInvariant s'"
      by auto
    with selected_ok(1) [OF i1 sel] sel i1 drop show ?thesis
      by (auto simp: mouseReleaseEvent_def Let_def)
  qed
qed

lemma keyOnParameters_inv: "editorInvariant s \<Longrightarrow> editorInvariant (keyOnParameters s key)"
  by (cases key) (simp_all add: keyOnParameters_def editorInvariant_iff)

lemma keyOnSelected_ok:
  assumes "editorInvariant s" and "selectedPoint s = Some k"
  shows "\<exists>s'. keyOnSelected s key = Inr s' \<and> editorInvariant s'"
proof -
  let ?cp = "controlPoints s ! k"
  have w: "1 / 10 \<le> weight ?cp"
    using selected_ok(2) [OF assms] by (simp add: pointOk_def)
  have up: "\<exists>cp' s'. updateSlopeHandlePositions (?cp\<lparr>weight := weight ?cp + 1 / 100\<rparr>) = Inr cp' \<and>
          setSelected s cp' = Inr s' \<and> editorInvariant s'"
    using write_selected [OF assms, where w = "weight ?cp + 1 / 100" and a = "slopeAngle ?cp" and q = "position ?cp"] w
    by auto
  have down: "\<exists>cp' s'. updateSlopeHandlePositions (?cp\<lparr>weight := max (weight ?cp - 1 / 100) (1 / 10)\<rparr>) = Inr cp' \<and>
          setSelected s cp' = Inr s' \<and> editorInvariant s'"
    using write_selected [OF assms, where w = "max (weight ?cp - 1 / 100) (1 / 10)" and a = "slopeAngle ?cp" and q = "position ?cp"]
    by auto
  have del: "editorInvariant (s\<lparr>controlPoints := take k (controlPoints s) @ drop (k + 1) (controlPoints s),
                          selectedPoint := None\<rparr>)"
    using assms(1) erase_subset [of k "controlPoints s"] by (auto simp: editorInvariant_iff)
  have clr: "editorInvariant (s\<lparr>controlPoints := [], selectedPoint := None\<rparr>)"
    by (simp add: editorInvariant_iff)
  have tog: "editorInvariant (s\<lparr>showControlPoints := \<not> showControlPoints s\<rparr>)"
    using assms(1) by (simp add: editorInvariant_iff)
  show ?thesis
    using assms up down del clr tog selected_ok(1) [OF assms]
    by (cases key) (auto simp: keyOnSelected_def)
qed

lemma keyPressEvent_ok:
  assumes "editorInvariant s"
  shows "\<exists>s'. keyPressEvent s key = Inr s' \<and> editorInvariant s'"
proof (cases "selectedPoint s")
  case None
  with assms show ?thesis
    by (simp add: keyPressEvent_def keyOnParameters_inv)
next
  case (Some k)
  from keyOnSelected_ok [OF assms Some, of key] Some show ?thesis
    by (auto simp: keyPressEvent_def keyOnParameters_inv)
qed

lemma handleEvent_ok:
  assumes "editorInvariant s"
  shows "\<exists>s'. handleEvent s ev = Inr s' \<and> editorInvariant s'"
proof (cases ev)
  case (MousePress button pos)
  with mousePressEvent_ok [OF assms] show ?thesis by simp
next
  case (MouseMove pos)
  with mouseMoveEvent_ok [OF assms] show ?thesis by simp
next
  case (MouseDoubleClick button pos)
  with createNewControlPoint_inv [OF assms] assms show ?thesis
    by (simp add: mouseDoubleClickEvent_def)
next
  case MouseRelease
  with mouseReleaseEvent_ok [OF assms] show ?thesis by simp
next
  case (KeyPress key)
  with keyPressEvent_ok [OF assms] show ?thesis by simp
next
  case (Resize w h)
  with assms show ?thesis by (simp add: editorInvariant_iff)
qed

lemma handleEvents_ok:
  "editorInvariant s \<Longrightarrow> \<exists>s'. handleEvents s evs = Inr s' \<and> editorInvariant s'"
proof (induction evs arbitrary: s)
  case Nil
  then show ?case by simp
next
  case (Cons ev evs)
  from handleEvent_ok [OF Cons.prems, of ev] obtain s1 where
    "handleEvent s ev = Inr s1" "editorInvariant s1" by blast
  with Cons.IH [of s1] show ?case by simp
qed

lemma editorInvariant_new: "editorInvariant NURBSEditor_new"
  by (simp add: editorInvariant_def NURBSEditor_new_def)

lemma updateSlopeHandles_eq:
  assumes "selectedPoint s = Some k" and "k < length (controlPoints s)"
    and "length (slopeHandles (controlPoints s ! k)) = 2"
  shows "\<exists>s'. updateSlopeHandles s p = Inr s' \<and>
           length (controlPoints s') = length (controlPoints s) \<and>
           slopeAngle (controlPoints s' ! k) =
             qAtan2 (y_of p - y_of (position (controlPoints s ! k)))
                    (x_of p - x_of (position (controlPoints s ! k))) \<and>
           weight (controlPoints s' ! k) =
             max (1 / 10) (lineLength (position (controlPoints s ! k)) p / HANDLE_RADIUS)"
proof -
  let ?cp = "controlPoints s ! k"
  let ?cp1 = "?cp\<lparr>slopeAngle := qAtan2 (y_of p - y_of (position ?cp)) (x_of p - x_of (position ?cp)),
                  weight := max (1 / 10) (lineLength (position ?cp) p / HANDLE_RADIUS)\<rparr>"
  have "length (slopeHandles ?cp1) = 2"
    using assms(3) by simp
  from updateSlopeHandlePositions_ok [OF this] obtain cp' where
    c: "updateSlopeHandlePositions ?cp1 = Inr cp'" "weight cp' = weight ?cp1"
      "slopeAngle cp' = slopeAngle ?cp1"
    by blast
  have sel: "selected s = Inr ?cp"
    using assms(1,2) by (simp add: selected_def vec_at_def)
  have put: "setSelected s cp' = Inr (s\<lparr>controlPoints := (controlPoints s)[k := cp']\<rparr>)"
    using assms(1,2) by (simp add: setSelected_def vec_put_def)
  have "updateSlopeHandles s p = Inr (s\<lparr>controlPoints := (controlPoints s)[k := cp']\<rparr>)"
    using sel c(1) put by (simp add: updateSlopeHandles_def Let_def lineLength_def)
  with c(2,3) assms(2) show ?thesis by simp
qed

lemma draggingEditor_reached:
  "handleEvents NURBSEditor_new
     [MouseDoubleClick LeftButton (QPointF 100 100), MousePress LeftButton (QPointF 160 100)]
   = Inr draggingEditor"
  by (simp add: draggingEditor_def NURBSEditor_new_def mouseDoubleClickEvent_def
      createNewControlPoint_def initSlopeHandles_def ControlPoint_new_def mousePressEvent_def
      trySelectSlopeHandle_def selected_def vec_at_def lineLength_def HANDLE_SIZE_def
      HANDLE_RADIUS_def)

section \<open>Partition of unity of the Cox-de Boor recursion\<close>

text \<open>
  Throughout, \<open>k\<close> is the knot span that holds \<open>t\<close>: \<open>knots ! k \<le> t < knots ! (k + 1)\<close>, and the
  span is wider than the tolerance.
\<close>

lemma coxDeBoor_support:
  assumes "sorted knots" and "knots ! k \<le> t" and "t < knots ! (k + 1)"
    and "k + 1 < length knots"
    and "i + p + 1 < length knots" and "k < i \<or> i + p < k"
  shows "coxDeBoor eps knots t p i = 0"
  using assms(5,6)
proof (induction p arbitrary: i)
  case 0
  from 0 consider "k < i" | "i < k" by auto
  then show ?case
  proof cases
    case 1
    then have "knots ! (k + 1) \<le> knots ! i"
      using 0 assms(1,4) by (intro sorted_nth_mono) simp_all
    with assms(3) show ?thesis by simp
  next
    case 2
    then have "knots ! (i + 1) \<le> knots ! k"
      using 0 assms(1,4) by (intro sorted_nth_mono) simp_all
    with assms(2) show ?thesis by simp
  qed
next
  case (Suc q)
  have "coxDeBoor eps knots t q i = 0"
    using Suc.prems by (intro Suc.IH) auto
  moreover have "coxDeBoor eps knots t q (i + 1) = 0"
    using Suc.prems by (intro Suc.IH) auto
  ultimately show ?case by simp
qed

lemma coxDeBoor_coefficients:
  fixes knots :: "real list"
  assumes "sorted knots" and "knots ! k \<le> t" and "t < knots ! (k + 1)"
    and "eps < knots ! (k + 1) - knots ! k"
    and "j \<le> k" and "k \<le> j + q" and "j + q + 1 < length knots"
  shows "(if \<bar>knots ! (j + Suc q) - knots ! j\<bar> \<le> eps then 0
          else (t - knots ! j) / (knots ! (j + Suc q) - knots ! j))
       + (if \<bar>knots ! (j + Suc q) - knots ! j\<bar> \<le> eps then 0
          else (knots ! (j + Suc q) - t) / (knots ! (j + Suc q) - knots ! j)) = 1"
proof -
  have "knots ! j \<le> knots ! k"
    using assms by (intro sorted_nth_mono) simp_all
  moreover have "knots ! (k + 1) \<le> knots ! (j + Suc q)"
    using assms by (intro sorted_nth_mono) simp_all
  ultimately have b: "knots ! j \<le> knots ! k \<and> knots ! (k + 1) \<le> knots ! (j + Suc q)"
    by simp
  have d: "eps < knots ! (j + Suc q) - knots ! j"
    using b assms(2,3,4) by linarith
  have pos: "0 < knots ! (j + Suc q) - knots ! j"
    using b assms(2,3) by linarith
  from d pos have "\<not> \<bar>knots ! (j + Suc q) - knots ! j\<bar> \<le> eps" by linarith
  moreover have "(t - knots ! j) / (knots ! (j + Suc q) - knots ! j)
       + (knots ! (j + Suc q) - t) / (knots ! (j + Suc q) - knots ! j) = 1"
    using pos by (simp add: add_divide_distrib [symmetric])
  ultimately show ?thesis by simp
qed

lemma coxDeBoor_span_sum:
  assumes "sorted knots" and "knots ! k \<le> t" and "t < knots ! (k + 1)"
    and "eps < knots ! (k + 1) - knots ! k"
  shows "a + p = k \<Longrightarrow> k + p + 1 < length knots \<Longrightarrow>
         (\<Sum>i = a..k. coxDeBoor eps knots t p i) = 1"
proof (induction p arbitrary: a)
  case 0
  then show ?case
    using assms(2,3) by simp
next
  case (Suc q)
  let ?N = "coxDeBoor eps knots t q"
  let ?A = "\<lambda>j. if \<bar>knots ! (j + Suc q) - knots ! j\<bar> \<le> eps then 0
          else (t - knots ! j) / (knots ! (j + Suc q) - knots ! j)"
  let ?B = "\<lambda>j. if \<bar>knots ! (j + Suc q) - knots ! j\<bar> \<le> eps then 0
          else (knots ! (j + Suc q) - t) / (knots ! (j + Suc q) - knots ! j)"
  have ak: "a \<le> k" and sa: "Suc a + q = k"
    using Suc.prems by simp_all
  have unfold: "coxDeBoor eps knots t (Suc q) i = ?A i * ?N i + ?B (Suc i) * ?N (Suc i)" for i
    by simp
  have k1: "k + 1 < length knots"
    using Suc.prems by simp
  have za: "?N a = 0"
    using Suc.prems by (intro coxDeBoor_support [OF assms(1,2,3) k1]) simp_all
  have zk: "?N (Suc k) = 0"
    using Suc.prems by (intro coxDeBoor_support [OF assms(1,2,3) k1]) simp_all
  have first: "(\<Sum>i = a..k. ?A i * ?N i) = (\<Sum>i = Suc a..k. ?A i * ?N i)"
    using ak za by (simp add: sum.atLeast_Suc_atMost)
  have "(\<Sum>i = a..k. ?B (Suc i) * ?N (Suc i)) = (\<Sum>i = Suc a..Suc k. ?B i * ?N i)"
    by (simp only: sum.shift_bounds_cl_Suc_ivl)
  also have "\<dots> = (\<Sum>i = Suc a..k. ?B i * ?N i)"
    using ak zk by simp
  finally have second: "(\<Sum>i = a..k. ?B (Suc i) * ?N (Suc i)) = (\<Sum>i = Suc a..k. ?B i * ?N i)" .
  have "(\<Sum>i = a..k. coxDeBoor eps knots t (Suc q) i)
      = (\<Sum>i = a..k. ?A i * ?N i) + (\<Sum>i = a..k. ?B (Suc i) * ?N (Suc i))"
    by (simp only: unfold sum.distrib)
  also have "\<dots> = (\<Sum>i = Suc a..k. ?A i * ?N i + ?B i * ?N i)"
    by (simp only: first second sum.distrib)
  also have "\<dots> = (\<Sum>i = Suc a..k. ?N i)"
  proof (rule sum.cong [OF refl])
    fix j assume "j \<in> {Suc a..k}"
    then have "j \<le> k" "k \<le> j + q" "j + q + 1 < length knots"
      using Suc.prems by simp_all
    from coxDeBoor_coefficients [OF assms this]
    have "?A j + ?B j = 1" .
    then have "(?A j + ?B j) * ?N j = ?N j" by (simp only: mult_1)
    then show "?A j * ?N j + ?B j * ?N j = ?N j"
      by (simp only: distrib_right)
  qed
  also have "\<dots> = 1"
    using Suc.prems sa by (intro Suc.IH) simp_all
  finally show ?case .
qed

lemma coxDeBoor_partition:
  assumes "sorted knots" and "knots ! k \<le> t" and "t < knots ! (k + 1)"
    and "eps < knots ! (k + 1) - knots ! k"
    and "p \<le> k" and "k \<le> n" and "n + p + 1 < length knots"
  shows "(\<Sum>i = 0..n. coxDeBoor eps knots t p i) = 1"
proof -
  have "(\<Sum>i = k - p..k. coxDeBoor eps knots t p i) = 1"
    using assms by (intro coxDeBoor_span_sum [OF assms(1,2,3,4)]) simp_all
  moreover have "(\<Sum>i = k - p..k. coxDeBoor eps knots t p i) = (\<Sum>i = 0..n. coxDeBoor eps knots t p i)"
  proof (rule sum.mono_neutral_left)
    show "finite {0..n}" by simp
    show "{k - p..k} \<subseteq> {0..n}" using assms(6) by auto
    show "\<forall>i \<in> {0..n} - {k - p..k}. coxDeBoor eps knots t p i = 0"
    proof
      fix i assume i: "i \<in> {0..n} - {k - p..k}"
      then have out: "k < i \<or> i + p < k" by auto
      from i assms(7) have rng: "i + p + 1 < length knots" by simp
      from assms(6,7) have "k + 1 < length knots" by simp
      from coxDeBoor_support [OF assms(1,2,3) this rng out]
      show "coxDeBoor eps knots t p i = 0" .
    qed
  qed
  ultimately show ?thesis by simp
qed

lemma knotEntry_span:
  assumes "0 \<le> d" and "d \<le> n" and "j \<le> nat (n - d + 1)"
  shows "knotEntry n d (nat d + j) = real j / real (nat (n - d + 1))"
proof -
  have u: "real (nat (n - d + 1)) = real_of_int (n - d + 1)"
    using assms by simp
  have i: "int (nat d + j) = d + int j"
    using assms by simp
  consider "j = 0" | "0 < j" "int j \<le> n - d" | "int j = n - d + 1"
    using assms by linarith
  then show ?thesis
  proof cases
    case 1
    with assms show ?thesis by (simp add: knotEntry_def)
  next
    case 2
    with assms show ?thesis
      unfolding u by (simp add: knotEntry_def i)
  next
    case 3
    with assms show ?thesis
      unfolding u by (simp add: knotEntry_def i)
  qed
qed

lemma generated_span:
  assumes "0 \<le> d" and "d \<le> n" and "0 \<le> t" and "t < 1"
  defines "u \<equiv> nat (n - d + 1)"
  defines "k \<equiv> nat d + nat \<lfloor>t * real u\<rfloor>"
  shows "nat d \<le> k" and "int k \<le> n"
    and "knotEntry n d k \<le> t" and "t < knotEntry n d (k + 1)"
    and "knotEntry n d (k + 1) - knotEntry n d k = 1 / real u"
proof -
  let ?j = "nat \<lfloor>t * real u\<rfloor>"
  have u0: "0 < u" using assms(1,2) by (simp add: u_def)
  have f0: "0 \<le> \<lfloor>t * real u\<rfloor>"
    using assms(3) by simp
  have "t * real u < real u"
    using assms(4) u0 by simp
  then have "\<lfloor>t * real u\<rfloor> < int u"
    by (simp add: floor_less_iff)
  with f0 have ju: "?j < u" by linarith
  have lo: "real ?j \<le> t * real u"
    using f0 by (simp add: of_nat_nat)
  have hi: "t * real u < real ?j + 1"
    using f0 by (simp add: of_nat_nat)
  have e0: "knotEntry n d k = real ?j / real u"
    unfolding k_def u_def using assms(1,2) ju
    by (intro knotEntry_span) (simp_all add: u_def)
  have e1: "knotEntry n d (k + 1) = real (?j + 1) / real u"
  proof -
    have "knotEntry n d (nat d + (?j + 1)) = real (?j + 1) / real (nat (n - d + 1))"
      using assms(1,2) ju by (intro knotEntry_span) (simp_all add: u_def)
    then show ?thesis by (simp add: k_def u_def add.assoc)
  qed
  show "nat d \<le> k" by (simp add: k_def)
  show "int k \<le> n"
    using ju assms(1,2) by (simp add: k_def u_def)
  show "knotEntry n d k \<le> t"
    unfolding e0 using lo u0 by (simp add: divide_le_eq)
  show "t < knotEntry n d (k + 1)"
    unfolding e1 using hi u0 by (simp add: less_divide_eq)
  show "knotEntry n d (k + 1) - knotEntry n d k = 1 / real u"
    unfolding e0 e1 by (simp add: diff_divide_distrib [symmetric])
qed

lemma generated_partition:
  assumes "1 \<le> degree s" and "degree s \<le> int (length (controlPoints s)) - 1"
    and "int (length (controlPoints s)) \<le> 2 ^ 31 - 1"
    and "0 \<le> t" and "t < 1"
  defines "knots \<equiv> map (knotEntry (int (length (controlPoints s)) - 1) (degree s))
                      [0..<length (controlPoints s) + nat (degree s) + 1]"
  shows "(\<Sum>i = 0..length (controlPoints s) - 1.
            coxDeBoor (1 / 10 ^ 12) knots t (nat (degree s)) i) = 1"
proof -
  let ?pc = "length (controlPoints s)"
  let ?n = "int ?pc - 1"
  let ?d = "degree s"
  define u where "u = nat (?n - ?d + 1)"
  define k where "k = nat ?d + nat \<lfloor>t * real u\<rfloor>"
  have d0: "0 \<le> ?d" and dn: "?d \<le> ?n"
    using assms(1,2) by simp_all
  note sp = generated_span [OF d0 dn assms(4,5), folded u_def k_def]
  have len: "length knots = ?pc + nat ?d + 1"
    by (simp add: knots_def)
  have kn: "k \<le> ?pc - 1"
    using sp(2) by linarith
  have k1: "k + 1 < length knots"
    using kn assms(1,2) len by linarith
  have nk: "knots ! k = knotEntry ?n ?d k" and nk1: "knots ! (k + 1) = knotEntry ?n ?d (k + 1)"
    using k1 len by (simp_all add: knots_def del: upt_Suc)
  have u0: "0 < u" and ub: "real u < 10 ^ 12"
  proof -
    show "0 < u" using assms(1,2) by (simp add: u_def)
    have "int u \<le> 2 ^ 31" using assms(1,2,3) by (simp add: u_def)
    then have "real_of_int (int u) \<le> real_of_int (2 ^ 31)"
      by (simp only: of_int_le_iff)
    then show "real u < 10 ^ 12" by simp
  qed
  have eps: "1 / 10 ^ 12 < knots ! (k + 1) - knots ! k"
    unfolding nk nk1 sp(5) using u0 ub by (simp add: divide_simps)
  show ?thesis
  proof (rule coxDeBoor_partition [where k = k])
    show "sorted knots" unfolding knots_def by (rule sorted_knotEntry)
    show "knots ! k \<le> t" unfolding nk by (rule sp(3))
    show "t < knots ! (k + 1)" unfolding nk1 by (rule sp(4))
    show "1 / 10 ^ 12 < knots ! (k + 1) - knots ! k" by (rule eps)
    show "nat ?d \<le> k" by (rule sp(1))
    show "k \<le> ?pc - 1" by (rule kn)
    show "?pc - 1 + nat ?d + 1 < length knots"
      using assms(1,2) len by linarith
  qed
qed

section \<open>The claims\<close>

text \<open>
  Claim C1. With at least two control points, \<^verbatim>\<open>evaluateNURBS(t)\<close> returns the position of the
  first control point whenever \<open>t \<le> 0\<close> and the position of the last one whenever \<open>t \<ge> 1\<close>.
  No knot vector is generated and no basis function is evaluated on these two paths: the
  result is the same for every value of \<open>degree\<close>, also one for which the interior
  evaluation fails.
\<close>

theorem evaluateNURBS_endpoints:
  assumes "2 \<le> length (controlPoints s)"
  shows "(t \<le> 0 \<longrightarrow> evaluateNURBS s t = Inr (position (hd (controlPoints s)))) \<and>
         (1 \<le> t \<longrightarrow> evaluateNURBS s t = Inr (position (last (controlPoints s)))) \<and>
         (t \<le> 0 \<or> 1 \<le> t \<longrightarrow> (\<forall>d. evaluateNURBS (s\<lparr>degree := d\<rparr>) t = evaluateNURBS s t))"
proof (cases "controlPoints s")
  case Nil
  with assms show ?thesis by simp
next
  case (Cons cp cps)
  with assms show ?thesis
    by (auto simp: evaluateNURBS_def vec_first_def vec_last_def)
qed

theorem evaluateNURBS_endpoints_witness:
  "evaluateNURBS scenarioNurbs 0 = Inr (QPointF 0 0) \<and>
   evaluateNURBS scenarioNurbs 1 = Inr (QPointF 200 0) \<and>
   evaluateNURBS scenarioNurbs (- 3) = Inr (QPointF 0 0) \<and>
   evaluateNURBS scenarioNurbs 7 = Inr (QPointF 200 0)"
proof -
  have h: "2 \<le> length (controlPoints scenarioNurbs)"
    by (simp add: scenarioNurbs_def)
  have e: "position (hd (controlPoints scenarioNurbs)) = QPointF 0 0"
     "position (last (controlPoints scenarioNurbs)) = QPointF 200 0"
    by (simp_all add: scenarioNurbs_def initSlopeHandles_def ControlPoint_new_def)
  show ?thesis
    using evaluateNURBS_endpoints [OF h, of 0] evaluateNURBS_endpoints [OF h, of 1]
      evaluateNURBS_endpoints [OF h, of "- 3"] evaluateNURBS_endpoints [OF h, of 7]
    by (simp add: e)
qed

text \<open>
  Claim C2. For \<open>pointCount \<ge> 2\<close> and \<open>1 \<le> degree \<le> pointCount - 1\<close>, \<^verbatim>\<open>generateKnots\<close>
  returns a vector of length \<open>pointCount + degree + 1\<close>; its first \<open>degree + 1\<close> entries are
  \<open>0\<close>, its last \<open>degree + 1\<close> entries are \<open>1\<close>, and the entry at each index \<open>i\<close> with
  \<open>degree + 1 \<le> i \<le> m - degree - 1\<close> is \<open>(i - degree) / (n - degree + 1)\<close>, where
  \<open>n = pointCount - 1\<close> and \<open>m = n + degree + 1\<close>.
\<close>

theorem generateKnots_layout:
  assumes "2 \<le> length (controlPoints s)"
    and "1 \<le> degree s"
    and "degree s \<le> int (length (controlPoints s)) - 1"
  shows "\<exists>knots. generateKnots s = Inr knots \<and>
           int (length knots) = int (length (controlPoints s)) + degree s + 1 \<and>
           (\<forall>i < length knots.
              (int i \<le> degree s \<longrightarrow> knots ! i = 0) \<and>
              (int (length knots) - (degree s + 1) \<le> int i \<longrightarrow> knots ! i = 1) \<and>
              (degree s + 1 \<le> int i \<and>
               int i \<le> (int (length (controlPoints s)) - 1 + degree s + 1) - degree s - 1 \<longrightarrow>
                 knots ! i = real_of_int (int i - degree s)
                             / real_of_int (int (length (controlPoints s)) - 1 - degree s + 1)))"
proof -
  let ?n = "int (length (controlPoints s)) - 1"
  let ?len = "length (controlPoints s) + nat (degree s) + 1"
  let ?knots = "map (knotEntry ?n (degree s)) [0..<?len]"
  have g: "generateKnots s = Inr ?knots"
    using assms by (intro generateKnots_closed) simp
  have l: "int (length ?knots) = int (length (controlPoints s)) + degree s + 1"
    using assms by simp
  have e: "?knots ! i = knotEntry ?n (degree s) i" if "i < length ?knots" for i
    using that by (simp del: upt_Suc)
  have "(int i \<le> degree s \<longrightarrow> ?knots ! i = 0) \<and>
        (int (length ?knots) - (degree s + 1) \<le> int i \<longrightarrow> ?knots ! i = 1) \<and>
        (degree s + 1 \<le> int i \<and> int i \<le> (?n + degree s + 1) - degree s - 1 \<longrightarrow>
           ?knots ! i = real_of_int (int i - degree s) / real_of_int (?n - degree s + 1))"
    if "i < length ?knots" for i
    unfolding e [OF that] l using assms by (auto simp: knotEntry_def)
  with g l show ?thesis by blast
qed

theorem generateKnots_layout_witness:
  "\<exists>knots. generateKnots (scenarioNurbs\<lparr>degree := 2\<rparr>) = Inr knots \<and> length knots = 7 \<and>
     knots ! 0 = 0 \<and> knots ! 2 = 0 \<and> knots ! 3 = 1 / 2 \<and> knots ! 4 = 1 \<and> knots ! 6 = 1"
proof -
  let ?s = "scenarioNurbs\<lparr>degree := 2\<rparr>"
  have c: "length (controlPoints scenarioNurbs) = 4"
    by (simp add: scenarioNurbs_def)
  have h: "2 \<le> length (controlPoints ?s)" "1 \<le> degree ?s"
    "degree ?s \<le> int (length (controlPoints ?s)) - 1"
    by (simp_all add: c)
  from generateKnots_layout [OF h] obtain knots where
    k: "generateKnots ?s = Inr knots" "int (length knots) = 7"
      "\<forall>i < length knots.
              (int i \<le> 2 \<longrightarrow> knots ! i = 0) \<and>
              (int (length knots) - 3 \<le> int i \<longrightarrow> knots ! i = 1) \<and>
              (3 \<le> int i \<and> int i \<le> 3 \<longrightarrow> knots ! i = real_of_int (int i - 2) / 2)"
    by (auto simp: c)
  from k(2) have l: "length knots = 7" by simp
  from k(3) have "knots ! 0 = 0" "knots ! 2 = 0" "knots ! 3 = 1 / 2" "knots ! 4 = 1" "knots ! 6 = 1"
    unfolding l by simp_all
  with k(1) l show ?thesis by blast
qed

text \<open>
  Claim C3. \<^verbatim>\<open>basisFunction(p, i, knots, t)\<close> is the Cox-de Boor recursion: the indicator of
  the half-open span \<open>knots[i] \<le> t < knots[i+1]\<close> for \<open>p = 0\<close>, and \<open>term1 + term2\<close> for
  \<open>p > 0\<close>, each term being \<open>0\<close> when its denominator is within the tolerance
  \<open>10\<^sup>-\<^sup>1\<^sup>2\<close> of zero (a positive tolerance, not an equality test). Every division the
  call performs has a divisor further than that tolerance from zero.
\<close>

theorem basisFunction_cox_de_boor:
  assumes "i + p + 1 < length knots"
  shows "basisFunction (int p) (int i) knots t = Inr (coxDeBoor (1 / 10 ^ 12) knots t p i) \<and>
         (0::real) < 1 / 10 ^ 12 \<and>
         (\<forall>d \<in> set (basisDivisors p i knots t). 1 / 10 ^ 12 < \<bar>d\<bar>)"
proof -
  have "1 / 10 ^ 12 < \<bar>d\<bar>" if "d \<in> set (basisDivisors p i knots t)" for d
    using basisDivisors_not_null [OF that] by (simp add: qFuzzyIsNull_def)
  with basisFunction_refines [OF assms] show ?thesis by simp
qed

theorem basisFunction_cox_de_boor_witness:
  "basisFunction 1 0 [0, 0, 1 / 2, 1, 1] (1 / 4) = Inr (1 / 2) \<and>
   basisFunction 2 1 [0, 0, 0, 1 / 2, 1, 1, 1] (1 / 4) = Inr (5 / 8) \<and>
   basisDivisors 1 0 [0, 0, 1 / 2, 1, 1] (1 / 4) = [1 / 2]"
proof -
  have h1: "0 + 1 + 1 < length [0, 0, 1 / 2, 1, 1 :: real]" by simp
  have h2: "1 + 2 + 1 < length [0, 0, 0, 1 / 2, 1, 1, 1 :: real]" by simp
  have d: "basisDivisors 1 0 [0, 0, 1 / 2, 1, 1] (1 / 4) = [1 / 2]"
    by (simp add: qFuzzyIsNull_def)
  show ?thesis
    using basisFunction_cox_de_boor [OF h1, of "1 / 4"] basisFunction_cox_de_boor [OF h2, of "1 / 4"] d
    by (simp add: numeral_2_eq_2)
qed

text \<open>
  Claim C4. For the knot vector \<^verbatim>\<open>generateKnots\<close> produces with \<open>1 \<le> degree \<le> pointCount - 1\<close>
  and every parameter \<open>0 \<le> t < 1\<close>, the values \<^verbatim>\<open>basisFunction(degree, i, knots, t)\<close> for
  \<open>i = 0..pointCount - 1\<close> sum to \<open>1\<close> (over exact arithmetic). The number of control points is
  the size of a \<^verbatim>\<open>QVector\<close>, a 32-bit \<^verbatim>\<open>int\<close>; within that range every knot span is wider
  than the tolerance of \<^verbatim>\<open>qFuzzyIsNull\<close>.
\<close>

theorem basis_partition_of_unity:
  assumes "1 \<le> degree s" and "degree s \<le> int (length (controlPoints s)) - 1"
    and "int (length (controlPoints s)) \<le> 2 ^ 31 - 1"
    and "0 \<le> t" and "t < 1"
  shows "\<exists>knots vs. generateKnots s = Inr knots \<and>
           map (\<lambda>i. basisFunction (degree s) (int i) knots t) [0..<length (controlPoints s)]
             = map Inr vs \<and>
           sum_list vs = 1"
proof -
  let ?pc = "length (controlPoints s)"
  let ?knots = "map (knotEntry (int ?pc - 1) (degree s)) [0..<?pc + nat (degree s) + 1]"
  let ?N = "coxDeBoor (1 / 10 ^ 12) ?knots t (nat (degree s))"
  have g: "generateKnots s = Inr ?knots"
    using assms(1) by (intro generateKnots_closed) simp
  have b: "basisFunction (degree s) (int i) ?knots t = Inr (?N i)" if "i < ?pc" for i
  proof -
    have "i + nat (degree s) + 1 < length ?knots"
      using that by simp
    from basisFunction_refines [OF this, of t] assms(1) show ?thesis
      by simp
  qed
  have m: "map (\<lambda>i. basisFunction (degree s) (int i) ?knots t) [0..<?pc] = map Inr (map ?N [0..<?pc])"
    using b by (simp del: upt_Suc)
  have pc: "0 < ?pc" using assms(1,2) by linarith
  have "sum_list (map ?N [0..<?pc]) = (\<Sum>i = 0..<?pc. ?N i)"
    by (simp add: interv_sum_list_conv_sum_set_nat del: upt_Suc)
  also have "{0..<?pc} = {0..?pc - 1}"
    using pc by (cases ?pc) (auto simp: atLeastLessThanSuc_atLeastAtMost)
  also have "(\<Sum>i = 0..?pc - 1. ?N i) = 1"
    using assms by (rule generated_partition)
  finally have "sum_list (map ?N [0..<?pc]) = 1" .
  with g m show ?thesis by blast
qed

theorem basis_partition_of_unity_witness:
  "\<exists>knots vs. generateKnots scenarioNurbs = Inr knots \<and>
     map (\<lambda>i. basisFunction 3 (int i) knots (1 / 2)) [0..<4] = map Inr vs \<and>
     vs = [1 / 8, 3 / 8, 3 / 8, 1 / 8] \<and> sum_list vs = 1"
proof -
  have c: "length (controlPoints scenarioNurbs) = 4" and d: "degree scenarioNurbs = 3"
    by (simp_all add: scenarioNurbs_def NURBSEditor_new_def)
  have h: "1 \<le> degree scenarioNurbs"
    "degree scenarioNurbs \<le> int (length (controlPoints scenarioNurbs)) - 1"
    "int (length (controlPoints scenarioNurbs)) \<le> 2 ^ 31 - 1"
    "(0::real) \<le> 1 / 2" "(1::real) / 2 < 1"
    by (simp_all add: c d)
  from basis_partition_of_unity [OF h] obtain knots vs where
    k: "generateKnots scenarioNurbs = Inr knots"
      "map (\<lambda>i. basisFunction 3 (int i) knots (1 / 2)) [0..<4] = map Inr vs"
      "sum_list vs = 1"
    unfolding c d by blast
  have "generateKnots scenarioNurbs = Inr [0, 0, 0, 0, 1, 1, 1, 1]"
    using generateKnots_closed [of scenarioNurbs]
    by (simp add: c d knotEntry_def upt_conv_Cons)
  with k(1) have kn: "knots = [0, 0, 0, 0, 1, 1, 1, 1]" by simp
  have e: "map (\<lambda>i. basisFunction 3 (int i) knots (1 / 2)) [0..<4]
      = map Inr [1 / 8, 3 / 8, 3 / 8, 1 / 8]"
    unfolding kn
    by (simp add: upt_conv_Cons basisFunction.simps vec_at_def qFuzzyIsNull_def)
  have "map (Inr :: real \<Rightarrow> error + real) vs = map Inr [1 / 8, 3 / 8, 3 / 8, 1 / 8]"
    by (rule trans [OF k(2) [symmetric] e])
  then have "vs = [1 / 8, 3 / 8, 3 / 8, 1 / 8]"
    by (simp only: inj_map_eq_map [OF inj_Inr])
  with k show ?thesis by blast
qed

text \<open>
  Claim C5. Sample \<open>j\<close> of the segment between the consecutive points \<open>p0 = points[i]\<close> and
  \<open>p1 = points[i+1]\<close> is \<open>h00(t) p0.position + h10(t) t0 + h01(t) p1.position + h11(t) t1\<close> at
  \<open>t = j / sampleResolution\<close>, with the cubic polynomials \<open>h00\<close>, \<open>h10\<close>, \<open>h01\<close>, \<open>h11\<close> of the
  specification, and each tangent the stored one when \<^verbatim>\<open>hasTangent\<close> is set and the automatic
  tangent of the current positions otherwise (\<open>autoTangent\<close>: one-sided at the two ends,
  centred in between). Nothing is cached: an editor with the same positions, flags and
  explicit tangents draws the same path, whatever tangents its unflagged points store.
\<close>

theorem hermite_segment_evaluation:
  assumes "0 < sampleResolutionH h" and "i + 1 < length (points h)"
    and "j \<le> nat (sampleResolutionH h)"
  shows "\<exists>path. drawHermiteCurve h = Inr path \<and>
           pointOf (path ! (i * (nat (sampleResolutionH h) + 1) + j)) =
             hermitePoint (positionH (points h ! i)) (resolvedTangent (points h) i)
               (positionH (points h ! (i + 1))) (resolvedTangent (points h) (i + 1))
               (real j / real_of_int (sampleResolutionH h)) \<and>
           (\<forall>h'. sameCurveData h h' \<longrightarrow> drawHermiteCurve h' = Inr path)"
proof -
  let ?path = "concat (map (segmentSamples h) [0..<length (points h) - 1])"
  have d: "drawHermiteCurve h = Inr ?path"
    and n: "?path ! (i * (nat (sampleResolutionH h) + 1) + j) = segmentSample h i j"
    using drawHermiteCurve_nth [OF assms] by simp_all
  have "drawHermiteCurve h' = Inr ?path" if "sameCurveData h h'" for h'
    using sameCurveData_draw [OF that] assms d by simp
  with d n show ?thesis
    by (auto simp: pointOf_segmentSample)
qed

theorem hermite_segment_evaluation_witness:
  "\<exists>path. drawHermiteCurve scenarioHermite = Inr path \<and>
     pointOf (path ! 7) = QPointF (625 / 4) 25 \<and>
     drawHermiteCurve
       (scenarioHermite\<lparr>points := map (\<lambda>p. p\<lparr>tangent := QPointF 7 7\<rparr>) (points scenarioHermite)\<rparr>)
       = Inr path"
proof -
  let ?h' = "scenarioHermite\<lparr>points := map (\<lambda>p. p\<lparr>tangent := QPointF 7 7\<rparr>) (points scenarioHermite)\<rparr>"
  have h: "0 < sampleResolutionH scenarioHermite" "1 + 1 < length (points scenarioHermite)"
    "2 \<le> nat (sampleResolutionH scenarioHermite)"
    by (simp_all add: scenarioHermite_def)
  have s: "sameCurveData scenarioHermite ?h'"
    by (simp add: sameCurveData_def scenarioHermite_def)
  have v: "hermitePoint (positionH (points scenarioHermite ! 1)) (resolvedTangent (points scenarioHermite) 1)
               (positionH (points scenarioHermite ! (1 + 1))) (resolvedTangent (points scenarioHermite) (1 + 1))
               (real 2 / real_of_int (sampleResolutionH scenarioHermite)) = QPointF (625 / 4) 25"
    by (simp add: scenarioHermite_def hermitePoint_def resolvedTangent_def autoTangent_def
        h00_def h10_def h01_def h11_def padd_def psub_def pscale_def power3_eq_cube power2_eq_square)
  have i: "1 * (nat (sampleResolutionH scenarioHermite) + 1) + 2 = 7"
    by (simp add: scenarioHermite_def)
  from hermite_segment_evaluation [OF h] s show ?thesis
    unfolding v i by blast
qed

text \<open>
  Claim C6, amended. With at least two points and a positive resolution the path holds, for
  each of the \<open>pointCount - 1\<close> segments in order, the samples at \<open>t = j / resolution\<close> for
  \<open>j = 0..resolution\<close>: \<open>(pointCount - 1) (resolution + 1)\<close> elements, the last sample of a
  segment and the first sample of the next being the same point. In the scenario of three
  points at \<open>(0,0)\<close>, \<open>(100,0)\<close>, \<open>(200,50)\<close> without explicit tangents and resolution \<open>4\<close> the
  path has \<open>10\<close> elements, the first at \<open>(0,0)\<close> and the last at \<open>(200,50)\<close>.
\<close>

theorem hermite_sample_polyline:
  "(2 \<le> length (points h) \<and> 0 < sampleResolutionH h \<longrightarrow>
     (\<exists>path. drawHermiteCurve h = Inr path \<and>
        path = concat (map (segmentSamples h) [0..<length (points h) - 1]) \<and>
        length path = (length (points h) - 1) * (nat (sampleResolutionH h) + 1) \<and>
        (\<forall>i. i + 1 < length (points h) \<longrightarrow>
           pointOf (path ! (i * (nat (sampleResolutionH h) + 1))) = positionH (points h ! i) \<and>
           pointOf (path ! (i * (nat (sampleResolutionH h) + 1) + nat (sampleResolutionH h)))
             = positionH (points h ! (i + 1))))) \<and>
   (\<exists>path. drawHermiteCurve scenarioHermite = Inr path \<and> length path = 10 \<and>
      pointOf (hd path) = QPointF 0 0 \<and> pointOf (last path) = QPointF 200 50)"
proof (intro conjI impI)
  assume a: "2 \<le> length (points h) \<and> 0 < sampleResolutionH h"
  let ?path = "concat (map (segmentSamples h) [0..<length (points h) - 1])"
  from a have r: "0 < sampleResolutionH h" and two: "2 \<le> length (points h)"
    by simp_all
  have d: "drawHermiteCurve h = Inr ?path"
    using two r by (rule drawHermiteCurve_closed)
  have l: "length ?path = (length (points h) - 1) * (nat (sampleResolutionH h) + 1)"
    by (intro length_concat_blocks) (simp add: length_segmentSamples)
  have e: "\<forall>i. i + 1 < length (points h) \<longrightarrow>
           pointOf (?path ! (i * (nat (sampleResolutionH h) + 1))) = positionH (points h ! i) \<and>
           pointOf (?path ! (i * (nat (sampleResolutionH h) + 1) + nat (sampleResolutionH h)))
             = positionH (points h ! (i + 1))"
    using segment_ends [OF r] by blast
  show "\<exists>path. drawHermiteCurve h = Inr path \<and>
        path = concat (map (segmentSamples h) [0..<length (points h) - 1]) \<and>
        length path = (length (points h) - 1) * (nat (sampleResolutionH h) + 1) \<and>
        (\<forall>i. i + 1 < length (points h) \<longrightarrow>
           pointOf (path ! (i * (nat (sampleResolutionH h) + 1))) = positionH (points h ! i) \<and>
           pointOf (path ! (i * (nat (sampleResolutionH h) + 1) + nat (sampleResolutionH h)))
             = positionH (points h ! (i + 1)))"
    by (rule exI [of _ ?path]) (intro conjI d refl l e)
next
  have "drawHermiteCurve scenarioHermite =
     Inr [MoveTo (QPointF 0 0), LineTo (QPointF (575 / 32) (- (75 / 64))),
      LineTo (QPointF (175 / 4) (- (25 / 8))),
      LineTo (QPointF (2325 / 32) (- (225 / 64))), LineTo (QPointF 100 0),
      MoveTo (QPointF 100 0), LineTo (QPointF (4075 / 32) (325 / 32)),
      LineTo (QPointF (625 / 4) 25),
      LineTo (QPointF (5825 / 32) (1275 / 32)), LineTo (QPointF 200 50)]"
    by (subst drawHermiteCurve_closed)
       (simp_all add: scenarioHermite_def segmentSamples_def segmentSample_def upt_conv_Cons
          hermitePoint_def resolvedTangent_def autoTangent_def
          h00_def h10_def h01_def h11_def padd_def psub_def pscale_def power3_eq_cube power2_eq_square)
  then show "\<exists>path. drawHermiteCurve scenarioHermite = Inr path \<and> length path = 10 \<and>
      pointOf (hd path) = QPointF 0 0 \<and> pointOf (last path) = QPointF 200 50"
    by simp
qed

theorem hermite_sample_polyline_witness:
  "\<exists>path. drawHermiteCurve scenarioHermite = Inr path \<and> length path = 2 * 5 \<and>
     pointOf (path ! 0) = QPointF 0 0 \<and> pointOf (path ! 4) = QPointF 100 0 \<and>
     pointOf (path ! 5) = QPointF 100 0 \<and> pointOf (path ! 9) = QPointF 200 50"
proof -
  have h: "2 \<le> length (points scenarioHermite) \<and> 0 < sampleResolutionH scenarioHermite"
    by (simp add: scenarioHermite_def)
  from hermite_sample_polyline [of scenarioHermite] h obtain path where
    p: "drawHermiteCurve scenarioHermite = Inr path"
      "length path = (length (points scenarioHermite) - 1) * (nat (sampleResolutionH scenarioHermite) + 1)"
      "\<forall>i. i + 1 < length (points scenarioHermite) \<longrightarrow>
           pointOf (path ! (i * (nat (sampleResolutionH scenarioHermite) + 1))) = positionH (points scenarioHermite ! i) \<and>
           pointOf (path ! (i * (nat (sampleResolutionH scenarioHermite) + 1) + nat (sampleResolutionH scenarioHermite)))
             = positionH (points scenarioHermite ! (i + 1))"
    by blast
  from p(2) have l: "length path = 2 * 5"
    by (simp add: scenarioHermite_def)
  from p(3) [rule_format, of 0] p(3) [rule_format, of 1]
  have "pointOf (path ! 0) = QPointF 0 0 \<and> pointOf (path ! 4) = QPointF 100 0 \<and>
     pointOf (path ! 5) = QPointF 100 0 \<and> pointOf (path ! 9) = QPointF 200 50"
    by (simp add: scenarioHermite_def)
  with p(1) l show ?thesis by blast
qed

text \<open>
  The path of the scenario has \<open>10\<close> elements: neither the \<open>8\<close> nor the \<open>9\<close> that the
  specification gives for it.
\<close>

theorem hermite_scenario_count_counterexample:
  "\<not> isl (drawHermiteCurve scenarioHermite) \<and>
   length (projr (drawHermiteCurve scenarioHermite)) = 10 \<and>
   length (projr (drawHermiteCurve scenarioHermite)) \<noteq> 8 \<and>
   length (projr (drawHermiteCurve scenarioHermite)) \<noteq> 9"
proof -
  have "drawHermiteCurve scenarioHermite =
      Inr (concat (map (segmentSamples scenarioHermite) [0..<length (points scenarioHermite) - 1]))"
    by (intro drawHermiteCurve_closed) (simp_all add: scenarioHermite_def)
  moreover have "length (concat (map (segmentSamples scenarioHermite) [0..<length (points scenarioHermite) - 1]))
      = (length (points scenarioHermite) - 1) * (nat (sampleResolutionH scenarioHermite) + 1)"
    by (intro length_concat_blocks) (simp add: length_segmentSamples)
  ultimately show ?thesis
    by (simp add: scenarioHermite_def)
qed

text \<open>
  Claim C7. Dragging a handle of the selected control point \<open>c\<close> to the pointer position
  \<open>p\<close> (\<^verbatim>\<open>updateSlopeHandles\<close>) sets \<open>c\<close>'s angle to \<open>atan2(p.y - c.y, p.x - c.x)\<close> and its weight
  to \<open>max(0.1, distance(p, c.position) / HANDLE_RADIUS)\<close>. The weight is never below \<open>0.1\<close>; it
  is \<open>0.1\<close> when \<open>p\<close> is \<open>c\<close>'s position; and it has no upper bound: every bound is exceeded at
  some pointer position.
\<close>

theorem handle_drag_sets_angle_and_weight:
  assumes "selectedPoint s = Some k" and "k < length (controlPoints s)"
    and "length (slopeHandles (controlPoints s ! k)) = 2"
  shows "(\<exists>s'. updateSlopeHandles s p = Inr s' \<and>
            slopeAngle (controlPoints s' ! k) =
              qAtan2 (y_of p - y_of (position (controlPoints s ! k)))
                     (x_of p - x_of (position (controlPoints s ! k))) \<and>
            weight (controlPoints s' ! k) =
              max (1 / 10) (lineLength (position (controlPoints s ! k)) p / HANDLE_RADIUS) \<and>
            1 / 10 \<le> weight (controlPoints s' ! k) \<and>
            (p = position (controlPoints s ! k) \<longrightarrow> weight (controlPoints s' ! k) = 1 / 10)) \<and>
         (\<forall>B. \<exists>q s'. updateSlopeHandles s q = Inr s' \<and> B < weight (controlPoints s' ! k))"
proof (intro conjI allI)
  from updateSlopeHandles_eq [OF assms, of p] obtain s' where
    u: "updateSlopeHandles s p = Inr s'"
      "slopeAngle (controlPoints s' ! k) =
              qAtan2 (y_of p - y_of (position (controlPoints s ! k)))
                     (x_of p - x_of (position (controlPoints s ! k)))"
      "weight (controlPoints s' ! k) =
              max (1 / 10) (lineLength (position (controlPoints s ! k)) p / HANDLE_RADIUS)"
    by blast
  from u(3) have lo: "1 / 10 \<le> weight (controlPoints s' ! k)"
    by simp
  have "weight (controlPoints s' ! k) = 1 / 10" if "p = position (controlPoints s ! k)"
    using u(3) that by (simp add: lineLength_def)
  with u lo show "\<exists>s'. updateSlopeHandles s p = Inr s' \<and>
            slopeAngle (controlPoints s' ! k) =
              qAtan2 (y_of p - y_of (position (controlPoints s ! k)))
                     (x_of p - x_of (position (controlPoints s ! k))) \<and>
            weight (controlPoints s' ! k) =
              max (1 / 10) (lineLength (position (controlPoints s ! k)) p / HANDLE_RADIUS) \<and>
            1 / 10 \<le> weight (controlPoints s' ! k) \<and>
            (p = position (controlPoints s ! k) \<longrightarrow> weight (controlPoints s' ! k) = 1 / 10)"
    by blast
next
  fix B :: real
  let ?c = "position (controlPoints s ! k)"
  let ?q = "QPointF (x_of ?c + 60 * (\<bar>B\<bar> + 1)) (y_of ?c)"
  from updateSlopeHandles_eq [OF assms, of ?q] obtain s' where
    u: "updateSlopeHandles s ?q = Inr s'"
      "weight (controlPoints s' ! k) = max (1 / 10) (lineLength ?c ?q / HANDLE_RADIUS)"
    by blast
  have "lineLength ?c ?q = sqrt ((60 * (\<bar>B\<bar> + 1)) * (60 * (\<bar>B\<bar> + 1)))"
    by (simp add: lineLength_def)
  also have "\<dots> = 60 * (\<bar>B\<bar> + 1)"
    by (simp only: real_sqrt_abs2) simp
  finally have "lineLength ?c ?q / HANDLE_RADIUS = \<bar>B\<bar> + 1"
    by (simp add: HANDLE_RADIUS_def)
  with u(2) have "B < weight (controlPoints s' ! k)"
    by simp
  with u(1) show "\<exists>q s'. updateSlopeHandles s q = Inr s' \<and> B < weight (controlPoints s' ! k)"
    by blast
qed

theorem handle_drag_sets_angle_and_weight_witness:
  "(\<exists>s'. updateSlopeHandles draggingEditor (QPointF 100 100) = Inr s' \<and>
      slopeAngle (controlPoints s' ! 0) = 0 \<and> weight (controlPoints s' ! 0) = 1 / 10) \<and>
   (\<exists>s'. updateSlopeHandles draggingEditor (QPointF 100 220) = Inr s' \<and>
      slopeAngle (controlPoints s' ! 0) = pi / 2 \<and> weight (controlPoints s' ! 0) = 2)"
proof -
  have h: "selectedPoint draggingEditor = Some 0" "0 < length (controlPoints draggingEditor)"
    "length (slopeHandles (controlPoints draggingEditor ! 0)) = 2"
    by (simp_all add: draggingEditor_def initSlopeHandles_def)
  have c: "position (controlPoints draggingEditor ! 0) = QPointF 100 100"
    by (simp add: draggingEditor_def initSlopeHandles_def ControlPoint_new_def)
  have l: "lineLength (QPointF 100 100) (QPointF 100 220) = 120"
  proof -
    have "lineLength (QPointF 100 100) (QPointF 100 220) = sqrt (120 * 120)"
      by (simp add: lineLength_def)
    also have "\<dots> = 120"
      by (simp add: real_sqrt_abs2)
    finally show ?thesis .
  qed
  from handle_drag_sets_angle_and_weight [OF h, of "QPointF 100 100"]
  have a: "\<exists>s'. updateSlopeHandles draggingEditor (QPointF 100 100) = Inr s' \<and>
      slopeAngle (controlPoints s' ! 0) = 0 \<and> weight (controlPoints s' ! 0) = 1 / 10"
    by (auto simp: c qAtan2_def)
  from handle_drag_sets_angle_and_weight [OF h, of "QPointF 100 220"]
  have b: "\<exists>s'. updateSlopeHandles draggingEditor (QPointF 100 220) = Inr s' \<and>
      slopeAngle (controlPoints s' ! 0) = pi / 2 \<and> weight (controlPoints s' ! 0) = 2"
    by (auto simp: c l qAtan2_def HANDLE_RADIUS_def)
  from a b show ?thesis by blast
qed

text \<open>
  Claim C8. In every state the editor reaches from its initial state by any sequence of
  events (point creation, handle drag, the weight keys, and every other mouse and key
  event), every control point's weight is at least \<open>0.1\<close>, hence positive. No event fails on
  the way.
\<close>

theorem weights_stay_positive:
  "\<exists>s. handleEvents NURBSEditor_new evs = Inr s \<and>
        (\<forall>cp \<in> set (controlPoints s). 1 / 10 \<le> weight cp \<and> 0 < weight cp)"
proof -
  from handleEvents_ok [OF editorInvariant_new, of evs] obtain s where
    s: "handleEvents NURBSEditor_new evs = Inr s" "editorInvariant s"
    by blast
  from s(2) have "\<forall>cp \<in> set (controlPoints s). 1 / 10 \<le> weight cp \<and> 0 < weight cp"
    by (auto simp: editorInvariant_iff pointOk_def)
  with s(1) show ?thesis by blast
qed

theorem weights_stay_positive_witness:
  "\<exists>s. handleEvents NURBSEditor_new
          [MouseDoubleClick LeftButton (QPointF 100 100),
           MousePress LeftButton (QPointF 160 100),
           MouseMove (QPointF 100 100),
           KeyPress Key_Down] = Inr s \<and>
        map weight (controlPoints s) = [1 / 10] \<and>
        list_all (\<lambda>cp. 0 < weight cp) (controlPoints s)"
proof -
  let ?evs = "[MouseDoubleClick LeftButton (QPointF 100 100),
           MousePress LeftButton (QPointF 160 100),
           MouseMove (QPointF 100 100),
           KeyPress Key_Down]"
  from weights_stay_positive [of ?evs] obtain s where
    s: "handleEvents NURBSEditor_new ?evs = Inr s"
      "\<forall>cp \<in> set (controlPoints s). 1 / 10 \<le> weight cp \<and> 0 < weight cp"
    by blast
  have "\<exists>s'. handleEvents NURBSEditor_new ?evs = Inr s' \<and> map weight (controlPoints s') = [1 / 10]"
    by (simp add: NURBSEditor_new_def mouseDoubleClickEvent_def createNewControlPoint_def
        initSlopeHandles_def ControlPoint_new_def mousePressEvent_def trySelectSlopeHandle_def
        selected_def setSelected_def vec_at_def vec_put_def lineLength_def HANDLE_SIZE_def
        HANDLE_RADIUS_def mouseMoveEvent_def updateSlopeHandles_def updateSlopeHandlePositions_def
        qAtan2_def keyPressEvent_def keyOnSelected_def keyOnParameters_def Let_def)
  with s(1) have "map weight (controlPoints s) = [1 / 10]"
    by auto
  with s show ?thesis
    by (auto simp: list_all_iff)
qed

text \<open>
  Claim C9. Degenerate input is not fatal: \<^verbatim>\<open>evaluateNURBS\<close> returns the zero point when there
  are fewer than two control points, and when the weighted basis sum is \<open>0\<close> at an interior
  parameter; \<^verbatim>\<open>drawHermiteCurve\<close> with fewer than two points draws nothing. Each of these calls
  returns (\<open>Inr\<close>), none fails.
\<close>

theorem degenerate_input_is_not_fatal:
  "(length (controlPoints s) < 2 \<longrightarrow> evaluateNURBS s t = Inr (QPointF 0 0)) \<and>
   (2 \<le> length (controlPoints s) \<and> 0 < t \<and> t < 1 \<and> generateKnots s = Inr knots \<and>
    nurbsSum s knots (qBound 0 t 1) 0 (int (length (controlPoints s)) - 1) (0, 0, 0) = Inr (x, y, 0)
      \<longrightarrow> evaluateNURBS s t = Inr (QPointF 0 0)) \<and>
   (length (points h) < 2 \<longrightarrow> drawHermiteCurve h = Inr [])"
  by (simp add: evaluateNURBS_def drawHermiteCurve_def Let_def)

theorem degenerate_input_is_not_fatal_witness:
  "evaluateNURBS NURBSEditor_new (1 / 2) = Inr (QPointF 0 0) \<and>
   nurbsSum zeroWeightNurbs [0, 0, 1, 1] (qBound 0 (1 / 2) 1) 0 1 (0, 0, 0) = Inr (0, 0, 0) \<and>
   evaluateNURBS zeroWeightNurbs (1 / 2) = Inr (QPointF 0 0) \<and>
   drawHermiteCurve \<lparr>points = [], sampleResolutionH = 100\<rparr> = Inr [] \<and>
   drawHermiteCurve (scenarioHermite\<lparr>points := [hd (points scenarioHermite)]\<rparr>) = Inr []"
proof -
  have g: "generateKnots zeroWeightNurbs = Inr [0, 0, 1, 1]"
    using generateKnots_closed [of zeroWeightNurbs]
    by (simp add: zeroWeightNurbs_def NURBSEditor_new_def knotEntry_def upt_conv_Cons)
  have n: "nurbsSum zeroWeightNurbs [0, 0, 1, 1] (qBound 0 (1 / 2) 1) 0
             (int (length (controlPoints zeroWeightNurbs)) - 1) (0, 0, 0) = Inr (0, 0, 0)"
    by (simp add: nurbsSum.simps basisFunction.simps zeroWeightNurbs_def NURBSEditor_new_def
        vec_at_def qFuzzyIsNull_def qBound_def initSlopeHandles_def ControlPoint_new_def)
  have c: "int (length (controlPoints zeroWeightNurbs)) - 1 = 1"
    by (simp add: zeroWeightNurbs_def)
  have l0: "length (controlPoints NURBSEditor_new) < 2"
    by (simp add: NURBSEditor_new_def)
  have l2: "2 \<le> length (controlPoints zeroWeightNurbs)"
    by (simp add: zeroWeightNurbs_def)
  have a: "evaluateNURBS NURBSEditor_new (1 / 2) = Inr (QPointF 0 0)"
    using degenerate_input_is_not_fatal [of NURBSEditor_new "1 / 2"] l0 by simp
  have b: "evaluateNURBS zeroWeightNurbs (1 / 2) = Inr (QPointF 0 0)"
    using degenerate_input_is_not_fatal [of zeroWeightNurbs "1 / 2" "[0, 0, 1, 1]" 0 0] l2 g n
    by simp
  have d: "drawHermiteCurve \<lparr>points = [], sampleResolutionH = 100\<rparr> = Inr []"
    "drawHermiteCurve (scenarioHermite\<lparr>points := [hd (points scenarioHermite)]\<rparr>) = Inr []"
    using degenerate_input_is_not_fatal [where h = "\<lparr>points = [], sampleResolutionH = 100\<rparr>"]
      degenerate_input_is_not_fatal [where h = "scenarioHermite\<lparr>points := [hd (points scenarioHermite)]\<rparr>"]
    by simp_all
  from a b d n c show ?thesis by simp
qed

text \<open>
  Claim C10. For every degree \<open>d \<ge> 1\<close>, also \<open>d \<ge> pointCount\<close>, \<^verbatim>\<open>generateKnots\<close> returns
  \<open>pointCount + degree + 1\<close> entries in non-decreasing order; where the trailing ones overlap
  the leading zeros the entry is \<open>1\<close>; the interior loop does not run (so it divides nothing)
  unless its divisor \<open>n - degree + 1\<close> is positive; and every read of
  \<^verbatim>\<open>basisFunction(degree, i, knots, t)\<close> for \<open>0 \<le> i \<le> pointCount - 1\<close> is inside the vector:
  the call returns a value, not \<open>OutOfRange\<close>.
\<close>

theorem oversized_degree_is_safe:
  assumes "1 \<le> degree s"
  shows "\<exists>knots. generateKnots s = Inr knots \<and>
           int (length knots) = int (length (controlPoints s)) + degree s + 1 \<and>
           sorted knots \<and>
           (\<forall>j < length knots. length (controlPoints s) \<le> j \<longrightarrow> knots ! j = 1) \<and>
           (\<forall>ks. int (length (controlPoints s)) - 1 - degree s + 1 \<le> 0 \<longrightarrow>
              interiorKnots (int (length (controlPoints s)) - 1) (degree s) (degree s + 1)
                (int (length (controlPoints s)) - 1 + degree s + 1 - degree s) ks = Inr ks) \<and>
           (\<forall>i. 0 \<le> i \<and> i \<le> int (length (controlPoints s)) - 1 \<longrightarrow>
              (\<exists>v. basisFunction (degree s) i knots t = Inr v))"
proof -
  let ?n = "int (length (controlPoints s)) - 1"
  let ?len = "length (controlPoints s) + nat (degree s) + 1"
  let ?knots = "map (knotEntry ?n (degree s)) [0..<?len]"
  have g: "generateKnots s = Inr ?knots"
    using assms by (intro generateKnots_closed) simp
  have l: "int (length ?knots) = int (length (controlPoints s)) + degree s + 1"
    using assms by simp
  have srt: "sorted ?knots"
    by (rule sorted_knotEntry)
  have ones: "?knots ! j = 1" if "j < length ?knots" "length (controlPoints s) \<le> j" for j
    using that by (simp add: knotEntry_def del: upt_Suc)
  have skip: "interiorKnots ?n (degree s) (degree s + 1) (?n + degree s + 1 - degree s) ks = Inr ks"
    if "?n - degree s + 1 \<le> 0" for ks
    using that by (intro interiorKnots_skip) simp
  have rd: "\<exists>v. basisFunction (degree s) i ?knots t = Inr v"
    if "0 \<le> i \<and> i \<le> ?n" for i
  proof -
    have "i + degree s + 1 < int (length ?knots)"
      unfolding l using that by simp
    with basisFunction_in_range [of "degree s" i ?knots t] assms that show ?thesis
      by simp
  qed
  from g l srt ones skip rd show ?thesis by blast
qed

theorem oversized_degree_is_safe_witness:
  "\<exists>knots. generateKnots (scenarioNurbs\<lparr>degree := 5\<rparr>) = Inr knots \<and> length knots = 10 \<and>
     sorted knots \<and> knots ! 3 = 0 \<and> knots ! 4 = 1 \<and> knots ! 5 = 1 \<and>
     (\<exists>v. basisFunction 5 3 knots (1 / 2) = Inr v)"
proof -
  let ?s = "scenarioNurbs\<lparr>degree := 5\<rparr>"
  have c: "length (controlPoints scenarioNurbs) = 4"
    by (simp add: scenarioNurbs_def)
  have h: "1 \<le> degree ?s" by simp
  from oversized_degree_is_safe [OF h, of "1 / 2"] obtain knots where
    k: "generateKnots ?s = Inr knots" "int (length knots) = 10" "sorted knots"
      "\<forall>j < length knots. 4 \<le> j \<longrightarrow> knots ! j = 1"
      "\<forall>i. 0 \<le> i \<and> i \<le> 3 \<longrightarrow> (\<exists>v. basisFunction 5 i knots (1 / 2) = Inr v)"
    by (auto simp: c)
  from k(2) have l: "length knots = 10" by simp
  from k(4) have o: "knots ! 4 = 1" "knots ! 5 = 1"
    unfolding l by simp_all
  from k(5) have b: "\<exists>v. basisFunction 5 3 knots (1 / 2) = Inr v" by simp
  have "generateKnots ?s = Inr (map (knotEntry 3 5) [0..<10])"
    using generateKnots_closed [of ?s] by (simp add: c)
  with k(1) have "knots = map (knotEntry 3 5) [0..<10]"
    by simp
  then have "knots ! 3 = knotEntry 3 5 3"
    by (simp del: upt_Suc)
  then have "knots ! 3 = 0"
    by (simp add: knotEntry_def)
  with k(1) l k(3) o b show ?thesis by blast
qed

end
